theory Spec2Isabelle
  imports Main "HOL-Library.AList" "HOL-Library.Sublist"
begin

section \<open>The data the script works on\<close>

text \<open>
  \<^verbatim>\<open>Assets/Database/convert.py\<close> is a linear script over the file system, one HTTP
  download, one archive, one parsed table and one SQLite file.  The file system is a tree:
  a directory lists its entries in order (the order \<^verbatim>\<open>os.walk\<close> and
  \<^verbatim>\<open>Path.iterdir\<close> report them in), a regular file holds its content.  The two
  binary formats the script handles are kept in decoded form: a zip archive is the list of
  its members (the relative path of each, after \<^verbatim>\<open>zipfile\<close> has sanitised it, and its
  content; \<open>None\<close> for a directory member), an SQLite file is the list of its tables.
\<close>

type_synonym path = "string list"

datatype cell = IntV int | FloatV int nat | StrV string | NaN

datatype dtype = Int64 | Float64 | Object

record dataframe =
  columns :: "string list"
  dtypes :: "dtype list"
  rows :: "cell list list"

record table =
  tcolumns :: "string list"
  trows :: "cell list list"

datatype fdata =
    Bytes string
  | Zip "(path \<times> fdata option) list"
  | Sqlite "(string \<times> table) list"

datatype node = File fdata | Dir "(string \<times> node) list"

datatype error =
    FileNotFoundError | FileExistsError | IsADirectoryError | NotADirectoryError
  | PermissionError | OSError | URLError | BadZipFile | UnicodeDecodeError
  | EmptyDataError | ParserError | OperationalError | DatabaseError | ValueError
  | OverflowError

datatype platform = Posix | Windows

subsection \<open>Looking paths up\<close>

fun lookup :: "node \<Rightarrow> path \<Rightarrow> node option" where
  "lookup t [] = Some t"
| "lookup (File d) (x # xs) = None"
| "lookup (Dir es) (x # xs) = (case map_of es x of None \<Rightarrow> None | Some c \<Rightarrow> lookup c xs)"

definition exists :: "node \<Rightarrow> path \<Rightarrow> bool" where
  "exists t p = (lookup t p \<noteq> None)"

definition is_file :: "node \<Rightarrow> path \<Rightarrow> bool" where
  "is_file t p = (case lookup t p of Some (File d) \<Rightarrow> True | _ \<Rightarrow> False)"

definition is_dir :: "node \<Rightarrow> path \<Rightarrow> bool" where
  "is_dir t p = (case lookup t p of Some (Dir es) \<Rightarrow> True | _ \<Rightarrow> False)"

text \<open>What \<^verbatim>\<open>stat\<close> sees at a path: nothing, a directory, or a file and its content.\<close>

datatype entry = IsDir | IsFile fdata

definition stat :: "node \<Rightarrow> path \<Rightarrow> entry option" where
  "stat t p = (case lookup t p of None \<Rightarrow> None | Some (Dir es) \<Rightarrow> Some IsDir
     | Some (File d) \<Rightarrow> Some (IsFile d))"

text \<open>A path that runs through a regular file: the system call fails with \<^verbatim>\<open>ENOTDIR\<close>.\<close>

fun through_file :: "node \<Rightarrow> path \<Rightarrow> bool" where
  "through_file t [] = False"
| "through_file (File d) (x # xs) = True"
| "through_file (Dir es) (x # xs) =
     (case map_of es x of None \<Rightarrow> False | Some c \<Rightarrow> through_file c xs)"

subsection \<open>Changing the tree\<close>

text \<open>
  \<open>put p v t\<close> stores \<open>v\<close> at \<open>p\<close>: an entry that is already listed keeps its place, a new
  one is listed last.  \<open>del p t\<close> removes the entry.  Both leave the tree alone when the
  parent of \<open>p\<close> is not a directory of it; the operations below check that before they call
  them.
\<close>

fun put :: "path \<Rightarrow> node \<Rightarrow> node \<Rightarrow> node" where
  "put [] v t = v"
| "put (x # xs) v (File d) = File d"
| "put (x # xs) v (Dir es) =
     (case map_of es x of
        Some c \<Rightarrow> Dir (AList.update x (put xs v c) es)
      | None \<Rightarrow> if xs = [] then Dir (es @ [(x, v)]) else Dir es)"

fun del :: "path \<Rightarrow> node \<Rightarrow> node" where
  "del [] t = t"
| "del (x # xs) (File d) = File d"
| "del (x # xs) (Dir es) =
     (if xs = [] then Dir (AList.delete x es)
      else case map_of es x of
        Some c \<Rightarrow> Dir (AList.update x (del xs c) es)
      | None \<Rightarrow> Dir es)"

text \<open>In a file system no directory lists a name twice.\<close>

fun well_formed :: "node \<Rightarrow> bool" where
  "well_formed (File d) = True"
| "well_formed (Dir es) = (distinct (map fst es) \<and> list_all (\<lambda>e. well_formed (snd e)) es)"

text \<open>A node with nothing below it: a regular file or an empty directory.\<close>

fun leaf :: "node \<Rightarrow> bool" where
  "leaf (File d) = True"
| "leaf (Dir es) = (es = [])"

subsection \<open>Outcomes\<close>

text \<open>
  Nothing in the script catches an exception: a call either completes or raises, and what
  it had changed until then stays changed.  \<open>Raised e s\<close> is an exception \<open>e\<close> leaving
  the state \<open>s\<close> behind.
\<close>

datatype 's outcome = Done 's | Raised error 's

definition and_then :: "('s \<Rightarrow> 's outcome) \<Rightarrow> ('s \<Rightarrow> 's outcome) \<Rightarrow> 's \<Rightarrow> 's outcome" where
  "and_then f g s = (case f s of Done s1 \<Rightarrow> g s1 | Raised e s1 \<Rightarrow> Raised e s1)"

text \<open>The state an outcome leaves behind, completed or not.\<close>

fun final :: "'s outcome \<Rightarrow> 's" where
  "final (Done s) = s"
| "final (Raised e s) = s"

fun completed :: "'s outcome \<Rightarrow> bool" where
  "completed (Done s) = True"
| "completed (Raised e s) = False"

section \<open>The library calls\<close>

text \<open>
  The script is glue over \<^verbatim>\<open>pathlib\<close>, \<^verbatim>\<open>os\<close>, \<^verbatim>\<open>zipfile\<close>, \<^verbatim>\<open>urllib\<close>, \<^verbatim>\<open>sqlite3\<close>
  and \<^verbatim>\<open>pandas\<close>.  Each call is modelled by what its documentation says it does to a
  tree of regular files and directories, with the arguments the script can choose left as
  parameters.  Permissions, symbolic links, disk space and a transfer that breaks off half
  way are outside the model.
\<close>

subsection \<open>\<^verbatim>\<open>open(p, 'wb')\<close> and write\<close>

definition write_file :: "path \<Rightarrow> fdata \<Rightarrow> node \<Rightarrow> node outcome" where
  "write_file p d t =
     (case lookup t p of
        Some (Dir es) \<Rightarrow> Raised IsADirectoryError t
      | Some (File old) \<Rightarrow> Done (put p (File d) t)
      | None \<Rightarrow>
          (case lookup t (butlast p) of
             Some (Dir es) \<Rightarrow> Done (put p (File d) t)
           | _ \<Rightarrow> Raised (if through_file t p then NotADirectoryError else FileNotFoundError) t))"

subsection \<open>\<^verbatim>\<open>Path.unlink\<close>\<close>

text \<open>\<^verbatim>\<open>unlink\<close> removes a regular file and refuses a directory.\<close>

definition unlink :: "platform \<Rightarrow> path \<Rightarrow> node \<Rightarrow> node outcome" where
  "unlink pf p t =
     (case lookup t p of
        None \<Rightarrow> Raised (if through_file t p then NotADirectoryError else FileNotFoundError) t
      | Some (Dir es) \<Rightarrow> Raised (if pf = Windows then PermissionError else IsADirectoryError) t
      | Some (File d) \<Rightarrow> Done (del p t))"

subsection \<open>\<^verbatim>\<open>Path.rename\<close>\<close>

text \<open>
  On Unix an existing regular file at the target is replaced silently, on Windows an
  existing target raises \<^verbatim>\<open>FileExistsError\<close>.  A directory moves with its content; on
  Unix it may replace an empty directory.
\<close>

definition rename :: "platform \<Rightarrow> path \<Rightarrow> path \<Rightarrow> node \<Rightarrow> node outcome" where
  "rename pf src dst t =
     (case lookup t src of
        None \<Rightarrow> Raised (if through_file t src then NotADirectoryError else FileNotFoundError) t
      | Some (File d) \<Rightarrow>
          (if src = dst then Done t
           else case lookup t dst of
             Some (Dir es) \<Rightarrow> Raised (if pf = Windows then FileExistsError else IsADirectoryError) t
           | Some (File old) \<Rightarrow>
               if pf = Windows then Raised FileExistsError t
               else Done (put dst (File d) (del src t))
           | None \<Rightarrow>
               (case lookup t (butlast dst) of
                  Some (Dir es) \<Rightarrow> Done (put dst (File d) (del src t))
                | _ \<Rightarrow> Raised (if through_file t dst then NotADirectoryError
                              else FileNotFoundError) t))
      | Some (Dir es) \<Rightarrow>
          (if src = dst then Done t
           else if prefix src dst then Raised OSError t
           else case lookup t dst of
             Some (File old) \<Rightarrow> Raised (if pf = Windows then FileExistsError else NotADirectoryError) t
           | Some (Dir es') \<Rightarrow>
               if pf = Windows then Raised FileExistsError t
               else if es' = [] then Done (put dst (Dir es) (del src t))
               else Raised OSError t
           | None \<Rightarrow>
               (case lookup t (butlast dst) of
                  Some (Dir es') \<Rightarrow> Done (put dst (Dir es) (del src t))
                | _ \<Rightarrow> Raised (if through_file t dst then NotADirectoryError
                              else FileNotFoundError) t)))"

subsection \<open>\<^verbatim>\<open>os.mkdir\<close> and \<^verbatim>\<open>Path.mkdir\<close>\<close>

definition os_mkdir :: "path \<Rightarrow> node \<Rightarrow> node outcome" where
  "os_mkdir p t =
     (case lookup t p of
        Some n \<Rightarrow> Raised FileExistsError t
      | None \<Rightarrow>
          (case lookup t (butlast p) of
             Some (Dir es) \<Rightarrow> Done (put p (Dir []) t)
           | _ \<Rightarrow> Raised (if through_file t p then NotADirectoryError else FileNotFoundError) t))"

text \<open>
  \<^verbatim>\<open>Path.mkdir(parents, exist_ok)\<close>, as \<^verbatim>\<open>pathlib\<close> writes it: try \<^verbatim>\<open>os.mkdir\<close>; on
  \<^verbatim>\<open>FileNotFoundError\<close> make the parent with \<^verbatim>\<open>parents=True, exist_ok=True\<close> and try
  once more without \<^verbatim>\<open>parents\<close>; any other \<^verbatim>\<open>OSError\<close> is swallowed only when
  \<^verbatim>\<open>exist_ok\<close> holds and the path is a directory.
\<close>

function mkdir :: "path \<Rightarrow> bool \<Rightarrow> bool \<Rightarrow> node \<Rightarrow> node outcome" where
  "mkdir p parents exist_ok t =
     (case os_mkdir p t of
        Done t' \<Rightarrow> Done t'
      | Raised e t' \<Rightarrow>
          if e = FileNotFoundError then
            (if \<not> parents \<or> p = [] then Raised e t
             else case mkdir (butlast p) True True t of
               Raised e1 t1 \<Rightarrow> Raised e1 t1
             | Done t1 \<Rightarrow> mkdir p False exist_ok t1)
          else if \<not> exist_ok \<or> \<not> is_dir t p then Raised e t
          else Done t)"
  by pat_completeness auto
termination
  by (relation "measure (\<lambda>(p, parents, exist_ok, t). 2 * length p + (if parents then 1 else 0))")
     (auto simp: less_Suc_eq_le intro: Suc_leI)

declare mkdir.simps [simp del]

subsection \<open>\<^verbatim>\<open>Path.iterdir\<close> and \<^verbatim>\<open>os.walk\<close>\<close>

fun node_is_dir :: "node \<Rightarrow> bool" where
  "node_is_dir (Dir es) = True"
| "node_is_dir (File d) = False"

definition dirnames :: "(string \<times> node) list \<Rightarrow> string list" where
  "dirnames es = map fst (filter (\<lambda>e. node_is_dir (snd e)) es)"

definition filenames :: "(string \<times> node) list \<Rightarrow> string list" where
  "filenames es = map fst (filter (\<lambda>e. \<not> node_is_dir (snd e)) es)"

definition iterdir :: "path \<Rightarrow> node \<Rightarrow> error + string list" where
  "iterdir p t =
     (case lookup t p of
        None \<Rightarrow> Inl FileNotFoundError
      | Some (File d) \<Rightarrow> Inl NotADirectoryError
      | Some (Dir es) \<Rightarrow> Inr (map fst es))"

text \<open>
  \<^verbatim>\<open>os.walk(top)\<close>, top down: the triple of a directory (its path, the names of its
  sub-directories, the names of its other entries), then the walks of its sub-directories
  in listing order.  A \<^verbatim>\<open>top\<close> that cannot be listed yields nothing.  The generator lists
  a directory when it reaches it; the loop of the script changes the tree only by moving a
  file out of the directory just listed into the top directory, which was listed first, so
  the triples it sees are those of the tree the walk started on.
\<close>

fun walk :: "path \<Rightarrow> node \<Rightarrow> (path \<times> string list \<times> string list) list" where
  "walk root (File d) = []"
| "walk root (Dir es) =
     (root, dirnames es, filenames es) # concat (map (\<lambda>e. walk (root @ [fst e]) (snd e)) es)"

definition os_walk :: "path \<Rightarrow> node \<Rightarrow> (path \<times> string list \<times> string list) list" where
  "os_walk start t = (case lookup t start of None \<Rightarrow> [] | Some n \<Rightarrow> walk start n)"

subsection \<open>\<^verbatim>\<open>ZipFile.extractall\<close>\<close>

text \<open>
  One member: the directories above its target are made when they do not exist; a
  directory member makes its directory unless it is one already; a file member is written
  over whatever regular file is there.  \<^verbatim>\<open>extractall\<close> takes the members in archive
  order and stops at the first that fails, leaving what it has extracted.
\<close>

definition extract_member :: "path \<Rightarrow> path \<times> fdata option \<Rightarrow> node \<Rightarrow> node outcome" where
  "extract_member dir m t =
     (let target = dir @ fst m in
      and_then
        (\<lambda>t. if \<not> exists t (butlast target) then mkdir (butlast target) True True t else Done t)
        (\<lambda>t. case snd m of
                None \<Rightarrow> if is_dir t target then Done t else os_mkdir target t
              | Some d \<Rightarrow> write_file target d t)
        t)"

fun extract_members :: "path \<Rightarrow> (path \<times> fdata option) list \<Rightarrow> node \<Rightarrow> node outcome" where
  "extract_members dir [] t = Done t"
| "extract_members dir (m # ms) t = and_then (extract_member dir m) (extract_members dir ms) t"

definition extractall :: "path \<Rightarrow> path \<Rightarrow> node \<Rightarrow> node outcome" where
  "extractall zip_path dir t =
     (case lookup t zip_path of
        None \<Rightarrow> Raised FileNotFoundError t
      | Some (Dir es) \<Rightarrow> Raised IsADirectoryError t
      | Some (File (Zip ms)) \<Rightarrow> extract_members dir ms t
      | Some (File other) \<Rightarrow> Raised BadZipFile t)"

subsection \<open>\<^verbatim>\<open>sqlite3.connect\<close> and \<^verbatim>\<open>DataFrame.to_sql\<close>\<close>

text \<open>
  \<^verbatim>\<open>sqlite3.connect(p)\<close> opens whatever file is at \<open>p\<close> and makes an empty file when
  there is none (the directory must exist); a directory is refused.  What the file holds
  shows at the first statement: an empty file is a database without tables, a file that is
  not a database raises.
\<close>

definition connect :: "path \<Rightarrow> node \<Rightarrow> node outcome" where
  "connect p t =
     (case lookup t p of
        None \<Rightarrow>
          (case lookup t (butlast p) of
             Some (Dir es) \<Rightarrow> Done (put p (File (Bytes [])) t)
           | _ \<Rightarrow> Raised OperationalError t)
      | Some (Dir es) \<Rightarrow> Raised OperationalError t
      | Some (File d) \<Rightarrow> Done t)"

definition read_db :: "path \<Rightarrow> node \<Rightarrow> error + (string \<times> table) list" where
  "read_db p t =
     (case lookup t p of
        Some (File (Sqlite db)) \<Rightarrow> Inr db
      | Some (File (Bytes b)) \<Rightarrow> if b = [] then Inr [] else Inl DatabaseError
      | _ \<Rightarrow> Inl DatabaseError)"

datatype if_exists = Fail | Replace | Append

definition lower :: "char \<Rightarrow> char" where
  "lower c = (case map_of (zip ''ABCDEFGHIJKLMNOPQRSTUVWXYZ'' ''abcdefghijklmnopqrstuvwxyz'') c of
     None \<Rightarrow> c | Some l \<Rightarrow> l)"

text \<open>
  The table \<^verbatim>\<open>to_sql\<close> writes for a frame: the frame's columns and rows, and with
  \<^verbatim>\<open>index=True\<close> the row number 0, 1, ... in a first column, named \<^verbatim>\<open>index\<close>
  unless the frame has a column of that name.
\<close>

definition frame_table :: "dataframe \<Rightarrow> bool \<Rightarrow> table" where
  "frame_table df index =
     (if index
      then \<lparr>tcolumns = (if ''index'' \<in> set (columns df) then ''level_0'' else ''index'') # columns df,
            trows = map (\<lambda>(i, r). IntV (int i) # r) (zip [0 ..< length (rows df)] (rows df))\<rparr>
      else \<lparr>tcolumns = columns df, trows = rows df\<rparr>)"

text \<open>An SQLite integer has 64 bits; any other value of a cell can be stored.\<close>

fun storable :: "cell \<Rightarrow> bool" where
  "storable (IntV n) = (- (2 ^ 63) \<le> n \<and> n < 2 ^ 63)"
| "storable c = True"

text \<open>
  \<^verbatim>\<open>CREATE TABLE\<close> is refused when two column names differ in case only; it is not
  part of a transaction, so the table it makes stays.  The rows are inserted in one
  transaction: a value that cannot be stored raises \<^verbatim>\<open>OverflowError\<close> and no row of the
  call is kept.
\<close>

definition create_table ::
  "string \<Rightarrow> string list \<Rightarrow> (string \<times> table) list \<Rightarrow> (string \<times> table) list outcome" where
  "create_table name cols db =
     (if distinct (map (map lower) cols)
      then Done (db @ [(name, \<lparr>tcolumns = cols, trows = []\<rparr>)])
      else Raised OperationalError db)"

definition insert_rows ::
  "string \<Rightarrow> cell list list \<Rightarrow> (string \<times> table) list \<Rightarrow> (string \<times> table) list outcome" where
  "insert_rows name rs db =
     (if list_all (list_all storable) rs
      then Done (AList.map_entry name (\<lambda>t. t\<lparr>trows := trows t @ rs\<rparr>) db)
      else Raised OverflowError db)"

text \<open>
  Appending to a table that exists names the frame's columns in the \<^verbatim>\<open>INSERT\<close>: each
  must be a column of the table (up to case); a column of the table that the frame lacks
  gets no value.
\<close>

definition arrange :: "string list \<Rightarrow> string list \<Rightarrow> cell list \<Rightarrow> cell list" where
  "arrange tcols cols r =
     map (\<lambda>c. case map_of (zip (map (map lower) cols) r) (map lower c) of
                 None \<Rightarrow> NaN | Some v \<Rightarrow> v) tcols"

definition append_rows ::
  "string \<Rightarrow> string list \<Rightarrow> cell list list \<Rightarrow> (string \<times> table) list \<Rightarrow>
     (string \<times> table) list outcome" where
  "append_rows name cols rs db =
     (case map_of db name of
        None \<Rightarrow> Raised OperationalError db
      | Some old \<Rightarrow>
          if list_all (\<lambda>c. map lower c \<in> set (map (map lower) (tcolumns old))) cols
          then insert_rows name (map (arrange (tcolumns old) cols) rs) db
          else Raised OperationalError db)"

text \<open>
  \<^verbatim>\<open>to_sql(name, con, if_exists, index)\<close>.  An empty column name is refused while the
  statements are built, before the database is touched.  When the table exists,
  \<^verbatim>\<open>fail\<close> raises, \<^verbatim>\<open>replace\<close> drops it, creates it anew and inserts the rows, and
  \<^verbatim>\<open>append\<close> inserts the rows into it.  A call that raises leaves the database as far
  as it got: with \<^verbatim>\<open>replace\<close> the old table is gone.
\<close>

definition to_sql ::
  "dataframe \<Rightarrow> string \<Rightarrow> (string \<times> table) list \<Rightarrow> if_exists \<Rightarrow> bool \<Rightarrow>
     (string \<times> table) list outcome"
where
  "to_sql df name db mode index =
     (let tbl = frame_table df index in
      if [] \<in> set (tcolumns tbl) then Raised ValueError db
      else case map_of db name of
        None \<Rightarrow>
          and_then (create_table name (tcolumns tbl)) (insert_rows name (trows tbl)) db
      | Some old \<Rightarrow>
          (case mode of
             Fail \<Rightarrow> Raised ValueError db
           | Replace \<Rightarrow>
               and_then (create_table name (tcolumns tbl)) (insert_rows name (trows tbl))
                 (AList.delete name db)
           | Append \<Rightarrow> append_rows name (tcolumns tbl) (trows tbl) db))"

section \<open>The script\<close>

text \<open>
  What the script does not decide is its environment: the directory it lies in, the
  directory \<^verbatim>\<open>user_data_dir\<close> names on this platform, the platform, what the server
  answers to a request, and what \<^verbatim>\<open>pandas.read_csv\<close> makes of a file's text with a given
  separator.  The state is the file system and the record of what went out: the requests
  sent and the tables written.  The progress messages the script prints are left out.
\<close>

record env =
  script_dir :: path
  user_data_dir :: path
  os_platform :: platform
  remote :: "string \<Rightarrow> error + fdata"
  pd_read_csv :: "string \<Rightarrow> char \<Rightarrow> error + dataframe"

datatype event = Request string | TableWrite path string

record world =
  fs :: node
  events :: "event list"

definition on_fs :: "(node \<Rightarrow> node outcome) \<Rightarrow> world \<Rightarrow> world outcome" where
  "on_fs f w = (case f (fs w) of Done t \<Rightarrow> Done (w\<lparr>fs := t\<rparr>) | Raised e t \<Rightarrow> Raised e (w\<lparr>fs := t\<rparr>))"

definition tsv_name :: string where "tsv_name = ''opennutrition_foods.tsv''"
definition zip_name :: string where "zip_name = ''opennutrition-dataset-2025.1.zip''"
definition zip_url :: string where
  "zip_url = ''https://downloads.opennutrition.app/opennutrition-dataset-2025.1.zip''"
definition db_name :: string where "db_name = ''opennutrition_foods.db''"
definition table_name :: string where "table_name = ''opennutrition_foods''"

definition tsv_file :: "env \<Rightarrow> path" where "tsv_file E = script_dir E @ [tsv_name]"
definition zip_path :: "env \<Rightarrow> path" where "zip_path E = script_dir E @ [zip_name]"
definition app_data_dir :: "env \<Rightarrow> path" where "app_data_dir E = user_data_dir E"
definition db_path :: "env \<Rightarrow> path" where "db_path E = app_data_dir E @ [db_name]"

subsection \<open>Lines 16 to 26: download and unzip\<close>

text \<open>\<^verbatim>\<open>urlretrieve(zip_url, zip_path)\<close>: the request goes out, the answer is written.\<close>

definition urlretrieve :: "env \<Rightarrow> string \<Rightarrow> path \<Rightarrow> world \<Rightarrow> world outcome" where
  "urlretrieve E url p w =
     (let w1 = w\<lparr>events := events w @ [Request url]\<rparr> in
      case remote E url of
        Inl e \<Rightarrow> Raised e w1
      | Inr d \<Rightarrow> on_fs (write_file p d) w1)"

definition download :: "env \<Rightarrow> world \<Rightarrow> world outcome" where
  "download E = urlretrieve E zip_url (zip_path E)"

definition unzip :: "env \<Rightarrow> world \<Rightarrow> world outcome" where
  "unzip E = on_fs (extractall (zip_path E) (script_dir E))"

subsection \<open>Lines 32 to 39: the search\<close>

text \<open>
  The inner loop runs over the names of one directory's files and leaves at the first that
  is the dataset's name, after moving it unless it is the target itself.  The
  \<^verbatim>\<open>break\<close> leaves the inner loop only: the outer loop goes on to the next directory of
  the walk.
\<close>

fun search_files :: "env \<Rightarrow> path \<Rightarrow> string list \<Rightarrow> node \<Rightarrow> node outcome" where
  "search_files E root [] t = Done t"
| "search_files E root (file # files) t =
     (if file = tsv_name then
        (let extracted_tsv = root @ [file] in
         if extracted_tsv \<noteq> tsv_file E then rename (os_platform E) extracted_tsv (tsv_file E) t
         else Done t)
      else search_files E root files t)"

fun search_walk :: "env \<Rightarrow> (path \<times> string list \<times> string list) list \<Rightarrow> node \<Rightarrow> node outcome" where
  "search_walk E [] t = Done t"
| "search_walk E ((root, dirs, files) # rest) t =
     and_then (search_files E root files) (search_walk E rest) t"

definition search :: "env \<Rightarrow> world \<Rightarrow> world outcome" where
  "search E = on_fs (\<lambda>t. search_walk E (os_walk (script_dir E) t) t)"

subsection \<open>Lines 42 to 48: the cleanup\<close>

definition startswith :: "string \<Rightarrow> string \<Rightarrow> bool" where
  "startswith s pre = prefix pre s"

fun remove_docs :: "env \<Rightarrow> string list \<Rightarrow> node \<Rightarrow> node outcome" where
  "remove_docs E [] t = Done t"
| "remove_docs E (name # names) t =
     (if startswith name ''LICENSE'' \<or> startswith name ''README''
      then and_then (unlink (os_platform E) (script_dir E @ [name])) (remove_docs E names) t
      else remove_docs E names t)"

definition cleanup :: "env \<Rightarrow> world \<Rightarrow> world outcome" where
  "cleanup E =
     on_fs (and_then (unlink (os_platform E) (zip_path E))
       (\<lambda>t. case iterdir (script_dir E) t of
              Inl e \<Rightarrow> Raised e t
            | Inr names \<Rightarrow> remove_docs E names t))"

subsection \<open>Lines 13 to 50: acquisition\<close>

definition fetch_and_unpack :: "env \<Rightarrow> world \<Rightarrow> world outcome" where
  "fetch_and_unpack E = and_then (download E) (and_then (unzip E) (search E))"

definition acquire :: "env \<Rightarrow> world \<Rightarrow> world outcome" where
  "acquire E w =
     (if \<not> exists (fs w) (tsv_file E) then and_then (fetch_and_unpack E) (cleanup E) w
      else Done w)"

subsection \<open>Lines 52 to 62: parse and store\<close>

definition read_csv :: "env \<Rightarrow> path \<Rightarrow> char \<Rightarrow> world \<Rightarrow> error + dataframe" where
  "read_csv E p sep w =
     (case lookup (fs w) p of
        None \<Rightarrow> Inl (if through_file (fs w) p then NotADirectoryError else FileNotFoundError)
      | Some (Dir es) \<Rightarrow> Inl IsADirectoryError
      | Some (File (Bytes s)) \<Rightarrow> pd_read_csv E s sep
      | Some (File other) \<Rightarrow> Inl UnicodeDecodeError)"

definition make_app_data_dir :: "env \<Rightarrow> world \<Rightarrow> world outcome" where
  "make_app_data_dir E = on_fs (mkdir (app_data_dir E) True True)"

text \<open>
  Lines 60 to 62.  The connection is opened, \<^verbatim>\<open>to_sql\<close> reads what tables there are
  and writes; what it has changed in the database is in the file whether it completes or
  raises.
\<close>

definition write_db :: "env \<Rightarrow> dataframe \<Rightarrow> world \<Rightarrow> world outcome" where
  "write_db E df w =
     (case connect (db_path E) (fs w) of
        Raised e t \<Rightarrow> Raised e (w\<lparr>fs := t\<rparr>)
      | Done t \<Rightarrow>
          (case read_db (db_path E) t of
             Inl e \<Rightarrow> Raised e (w\<lparr>fs := t\<rparr>)
           | Inr db \<Rightarrow>
               (case to_sql df table_name db Replace False of
                  Raised e db' \<Rightarrow>
                    Raised e (w\<lparr>fs := (if db' = db then t
                                         else put (db_path E) (File (Sqlite db')) t)\<rparr>)
                | Done db' \<Rightarrow>
                    Done (w\<lparr>fs := put (db_path E) (File (Sqlite db')) t,
                            events := events w @ [TableWrite (db_path E) table_name]\<rparr>))))"

definition parse_and_store :: "env \<Rightarrow> world \<Rightarrow> world outcome" where
  "parse_and_store E w =
     (case read_csv E (tsv_file E) (CHR 0x09) w of
        Inl e \<Rightarrow> Raised e w
      | Inr df \<Rightarrow> and_then (make_app_data_dir E) (write_db E df) w)"

definition convert :: "env \<Rightarrow> world \<Rightarrow> world outcome" where
  "convert E = and_then (acquire E) (parse_and_store E)"

subsection \<open>Frames the database takes, and what a path opens as\<close>

text \<open>
  A frame that \<^verbatim>\<open>to_sql\<close> can store: no column name is empty, no two column names
  are equal up to case, and every integer has 64 bits.
\<close>

definition sqlite_stores :: "dataframe \<Rightarrow> bool" where
  "sqlite_stores df =
     ([] \<notin> set (columns df) \<and> distinct (map (map lower) (columns df)) \<and>
      list_all (list_all storable) (rows df))"

text \<open>
  The tables a path opens with: none for a free name in an existing directory and for an
  empty file, those of a database file; \<open>None\<close> when the path cannot be opened as a
  database.
\<close>

definition db_state :: "path \<Rightarrow> node \<Rightarrow> (string \<times> table) list option" where
  "db_state p t =
     (case lookup t p of
        None \<Rightarrow> if is_dir t (butlast p) then Some [] else None
      | Some (Dir es) \<Rightarrow> None
      | Some (File (Sqlite db)) \<Rightarrow> Some db
      | Some (File (Bytes b)) \<Rightarrow> if b = [] then Some [] else None
      | Some (File (Zip ms)) \<Rightarrow> None)"

section \<open>A plain reading of tab-separated text\<close>

text \<open>
  Modelled from the spec: \<^verbatim>\<open>pandas.read_csv\<close> is not part of the repository; the script
  only calls it, with \<^verbatim>\<open>sep='\t'\<close> and every other option at its default.  The spec's
  contract for the parse is: the first row gives the column headers, every further row is
  one record, and the type of a column is inferred from its content (numeric columns become
  numeric, text stays text).  \<open>read_csv_plain\<close> is that contract for plain text: lines end
  in a line feed, blank lines (nothing but spaces and tabs that are not the separator) are
  skipped, fields are what lies between separators, a row
  with more fields than the header is an error and a shorter one is filled with missing
  values; a column whose fields are all integer literals is \<open>Int64\<close>, one whose fields are
  all integer or decimal literals or missing is \<open>Float64\<close>, any other is \<open>Object\<close>.  A
  \<open>Float64\<close> cell \<open>FloatV m k\<close> stands for the decimal \<open>m / 10 ^ k\<close> the field denotes.
  Quoting, comment and missing-value markers are not modelled.
\<close>

fun split_on :: "char \<Rightarrow> string \<Rightarrow> string list" where
  "split_on c [] = [[]]"
| "split_on c (x # xs) =
     (if x = c then [] # split_on c xs
      else case split_on c xs of [] \<Rightarrow> [[x]] | f # rest \<Rightarrow> (x # f) # rest)"

definition digit_val :: "char \<Rightarrow> nat option" where
  "digit_val c = map_of (zip ''0123456789'' [0, 1, 2, 3, 4, 5, 6, 7, 8, 9]) c"

fun nat_of_digits :: "nat \<Rightarrow> string \<Rightarrow> nat option" where
  "nat_of_digits acc [] = Some acc"
| "nat_of_digits acc (c # cs) =
     (case digit_val c of None \<Rightarrow> None | Some d \<Rightarrow> nat_of_digits (10 * acc + d) cs)"

definition unsigned :: "string \<Rightarrow> bool \<times> string" where
  "unsigned s = (case s of [] \<Rightarrow> (False, [])
     | c # r \<Rightarrow> if c = CHR ''-'' then (True, r) else if c = CHR ''+'' then (False, r) else (False, s))"

definition parse_int :: "string \<Rightarrow> int option" where
  "parse_int s =
     (let (neg, body) = unsigned s in
      if body = [] then None
      else case nat_of_digits 0 body of
        None \<Rightarrow> None
      | Some n \<Rightarrow> Some (if neg then - int n else int n))"

definition parse_decimal :: "string \<Rightarrow> (int \<times> nat) option" where
  "parse_decimal s =
     (let (neg, body) = unsigned s in
      case split_on (CHR ''.'') body of
        [a, b] \<Rightarrow>
          if a = [] \<and> b = [] then None
          else (case nat_of_digits 0 (a @ b) of
                  None \<Rightarrow> None
                | Some n \<Rightarrow> Some (if neg then - int n else int n, length b))
      | _ \<Rightarrow> None)"

definition column_dtype :: "string list \<Rightarrow> dtype" where
  "column_dtype cells =
     (if cells = [] then Object
      else if list_all (\<lambda>s. parse_int s \<noteq> None) cells then Int64
      else if list_all (\<lambda>s. s = [] \<or> parse_int s \<noteq> None \<or> parse_decimal s \<noteq> None) cells
        then Float64
      else Object)"

definition cell_of :: "dtype \<Rightarrow> string \<Rightarrow> cell" where
  "cell_of dt s =
     (if s = [] then NaN
      else case dt of
        Int64 \<Rightarrow> (case parse_int s of Some n \<Rightarrow> IntV n | None \<Rightarrow> NaN)
      | Float64 \<Rightarrow>
          (case parse_int s of
             Some n \<Rightarrow> FloatV n 0
           | None \<Rightarrow> (case parse_decimal s of Some (m, k) \<Rightarrow> FloatV m k | None \<Rightarrow> NaN))
      | Object \<Rightarrow> StrV s)"

definition blank_line :: "char \<Rightarrow> string \<Rightarrow> bool" where
  "blank_line sep l = list_all (\<lambda>c. (c = CHR '' '' \<or> c = CHR 0x09) \<and> c \<noteq> sep) l"

definition data_lines :: "char \<Rightarrow> string \<Rightarrow> string list" where
  "data_lines sep text = filter (\<lambda>l. \<not> blank_line sep l) (split_on (CHR 0x0A) text)"

definition read_csv_plain :: "string \<Rightarrow> char \<Rightarrow> error + dataframe" where
  "read_csv_plain text sep =
     (case data_lines sep text of
        [] \<Rightarrow> Inl EmptyDataError
      | header # ls \<Rightarrow>
          (let names = split_on sep header;
               n = length names;
               recs = map (split_on sep) ls
           in if list_ex (\<lambda>r. n < length r) recs then Inl ParserError
              else
                (let padded = map (\<lambda>r. r @ replicate (n - length r) []) recs;
                     dts = map (\<lambda>i. column_dtype (map (\<lambda>r. r ! i) padded)) [0 ..< n]
                 in Inr \<lparr>columns = names, dtypes = dts,
                         rows = map (\<lambda>r. map (\<lambda>(dt, s). cell_of dt s) (zip dts r)) padded\<rparr>)))"


text \<open>The fixture of the spec's parse test.\<close>

definition is_numeric :: "dtype \<Rightarrow> bool" where
  "is_numeric dt = (dt = Int64 \<or> dt = Float64)"

definition fixture :: string where
  "fixture =
     ''name'' @ [CHR 0x09] @ ''calories'' @ [CHR 0x09] @ ''protein'' @ [CHR 0x0A] @
     ''Apple'' @ [CHR 0x09] @ ''52'' @ [CHR 0x09] @ ''0.3'' @ [CHR 0x0A] @
     ''Banana'' @ [CHR 0x09] @ ''89'' @ [CHR 0x09] @ ''1.1'' @ [CHR 0x0A] @
     ''Carrot'' @ [CHR 0x09] @ ''41'' @ [CHR 0x09] @ ''0.9'' @ [CHR 0x0A]"

section \<open>Example inputs\<close>

text \<open>
  An archive as the server delivers it (the dataset nested in a directory, a read-me and a
  licence beside it), an environment on Unix, and the file system of a fresh checkout.
\<close>

definition demo_archive :: fdata where
  "demo_archive =
     Zip [([''opennutrition-dataset-2025.1'', tsv_name], Some (Bytes fixture)),
          ([''README.txt''], Some (Bytes ''about the data'')),
          ([''LICENSE''], Some (Bytes ''terms''))]"

definition demo_env :: env where
  "demo_env =
     \<lparr>script_dir = [''repo'', ''Assets'', ''Database''],
      user_data_dir = [''home'', ''share'', ''DailyMealPlannerExtended''],
      os_platform = Posix,
      remote = (\<lambda>url. if url = zip_url then Inr demo_archive else Inl URLError),
      pd_read_csv = read_csv_plain\<rparr>"

definition fresh_world :: world where
  "fresh_world =
     \<lparr>fs = Dir [(''repo'', Dir [(''Assets'', Dir [(''Database'',
                   Dir [(''convert.py'', File (Bytes ''import pandas''))])])]),
                (''home'', Dir [])],
      events = []\<rparr>"

definition fixture_frame :: dataframe where
  "fixture_frame =
     \<lparr>columns = [''name'', ''calories'', ''protein''],
      dtypes = [Object, Int64, Float64],
      rows = [[StrV ''Apple'', IntV 52, FloatV 3 1],
              [StrV ''Banana'', IntV 89, FloatV 11 1],
              [StrV ''Carrot'', IntV 41, FloatV 9 1]]\<rparr>"

text \<open>The same file system after the script has run once.\<close>

definition installed_world :: world where
  "installed_world =
     \<lparr>fs = Dir [(''repo'', Dir [(''Assets'', Dir [(''Database'',
                   Dir [(''convert.py'', File (Bytes ''import pandas'')),
                        (''opennutrition-dataset-2025.1'', Dir []),
                        (tsv_name, File (Bytes fixture))])])]),
                (''home'', Dir [(''share'', Dir [(''DailyMealPlannerExtended'',
                   Dir [(db_name, File (Sqlite
                     [(table_name,
                       \<lparr>tcolumns = columns fixture_frame, trows = rows fixture_frame\<rparr>)]))])])])],
      events = [Request zip_url, TableWrite (db_path demo_env) table_name]\<rparr>"


text \<open>An archive whose read-me is a directory of notes.\<close>

definition readme_dir_env :: env where
  "readme_dir_env =
     demo_env\<lparr>remote := (\<lambda>url. if url = zip_url
        then Inr (Zip [([tsv_name], Some (Bytes fixture)),
                       ([''README'', ''notes.txt''], Some (Bytes ''notes''))])
        else Inl URLError)\<rparr>"

text \<open>
  An archive that holds the dataset's name twice, in the directories \<open>a\<close> and \<open>b\<close>, and
  the same environment on Windows.
\<close>

definition two_matches_env :: env where
  "two_matches_env =
     demo_env\<lparr>remote := (\<lambda>url. if url = zip_url
        then Inr (Zip [([''a'', tsv_name], Some (Bytes ''first'')),
                       ([''b'', tsv_name], Some (Bytes ''second''))])
        else Inl URLError)\<rparr>"

definition two_matches_env_windows :: env where
  "two_matches_env_windows = two_matches_env\<lparr>os_platform := Windows\<rparr>"







section \<open>Facts about the file-system model\<close>

lemma lookup_append:
  "lookup t (p @ q) = (case lookup t p of None \<Rightarrow> None | Some c \<Rightarrow> lookup c q)"
proof (induction p arbitrary: t)
  case Nil
  show ?case by simp
next
  case (Cons x xs)
  show ?case by (cases t) (auto simp: Cons.IH split: option.splits)
qed

lemma stat_Nil: "stat t [] = (case t of File d \<Rightarrow> Some (IsFile d) | Dir es \<Rightarrow> Some IsDir)"
  by (simp add: stat_def split: node.splits)

lemma stat_File_Cons: "stat (File d) (x # xs) = None"
  by (simp add: stat_def)

lemma stat_Dir_Cons:
  "stat (Dir es) (x # xs) = (case map_of es x of None \<Rightarrow> None | Some c \<Rightarrow> stat c xs)"
  by (simp add: stat_def split: option.splits)

lemma is_file_stat: "is_file t p \<longleftrightarrow> (\<exists>d. stat t p = Some (IsFile d))"
  by (auto simp: is_file_def stat_def split: option.splits node.splits)

lemma is_dir_stat: "is_dir t p \<longleftrightarrow> stat t p = Some IsDir"
  by (auto simp: is_dir_def stat_def split: option.splits node.splits)

lemma exists_stat: "exists t p \<longleftrightarrow> stat t p \<noteq> None"
  by (auto simp: exists_def stat_def split: option.splits node.splits)

lemma lookup_None_stat: "lookup t p = None \<longleftrightarrow> stat t p = None"
  by (auto simp: stat_def split: option.splits node.splits)

lemma lookup_File_stat: "lookup t p = Some (File d) \<longleftrightarrow> stat t p = Some (IsFile d)"
  by (auto simp: stat_def split: option.splits node.splits)

lemma lookup_Dir_stat: "(\<exists>es. lookup t p = Some (Dir es)) \<longleftrightarrow> stat t p = Some IsDir"
  by (auto simp: stat_def split: option.splits node.splits)


lemma stat_below:
  assumes "stat t p \<noteq> Some IsDir" and "r \<noteq> []"
  shows "stat t (p @ r) = None"
proof -
  obtain x xs where r: "r = x # xs" using assms(2) by (cases r) auto
  show ?thesis
  proof (cases "lookup t p")
    case None
    then show ?thesis unfolding stat_def lookup_append by simp
  next
    case (Some c)
    with assms(1) obtain d where "c = File d"
      by (cases c) (auto simp: stat_def)
    with Some r show ?thesis unfolding stat_def lookup_append by simp
  qed
qed

lemma stat_above:
  assumes "stat t (p @ r) \<noteq> None" and "r \<noteq> []"
  shows "stat t p = Some IsDir"
proof (rule ccontr)
  assume "stat t p \<noteq> Some IsDir"
  from stat_below[OF this assms(2)] assms(1) show False by simp
qed


lemma stat_put:
  "p = [] \<or> is_dir t (butlast p) \<Longrightarrow>
   stat (put p v t) q = (if prefix p q then stat v (drop (length p) q) else stat t q)"
proof (induction p arbitrary: t q)
  case Nil
  show ?case by simp
next
  case (Cons x xs)
  show ?case
  proof (cases t)
    case (File d)
    with Cons.prems show ?thesis by (cases xs) (simp_all add: is_dir_def)
  next
    case (Dir es)
    show ?thesis
    proof (cases q)
      case Nil
      then show ?thesis using Dir by (simp add: stat_Nil split: option.splits)
    next
      case q: (Cons y ys)
      show ?thesis
      proof (cases "map_of es x")
        case None
        with Cons.prems Dir have xs: "xs = []"
          by (cases xs) (simp_all add: is_dir_def)
        show ?thesis
          unfolding Dir q xs using None by (auto simp: stat_Dir_Cons map_add_def split: option.splits)
      next
        case (Some c)
        have "xs = [] \<or> is_dir c (butlast xs)"
          using Cons.prems Dir Some by (cases xs) (simp_all add: is_dir_def)
        from Cons.IH[OF this] have IH: "stat (put xs v c) ys =
            (if prefix xs ys then stat v (drop (length xs) ys) else stat c ys)" .
        show ?thesis
          unfolding Dir q using Some IH by (simp add: stat_Dir_Cons update_conv')
      qed
    qed
  qed
qed

lemma stat_del:
  "stat (del p t) q = (if p \<noteq> [] \<and> prefix p q then None else stat t q)"
proof (induction p arbitrary: t q)
  case Nil
  show ?case by simp
next
  case (Cons x xs)
  show ?case
  proof (cases t)
    case (File d)
    then show ?thesis by (cases q) (simp_all add: stat_File_Cons)
  next
    case (Dir es)
    show ?thesis
    proof (cases q)
      case Nil
      then show ?thesis using Dir by (simp add: stat_Nil split: option.splits)
    next
      case q: (Cons y ys)
      show ?thesis
      proof (cases "xs = []")
        case True
        then show ?thesis unfolding Dir q
          by (simp add: stat_Dir_Cons delete_conv')
      next
        case False
        show ?thesis
        proof (cases "map_of es x")
          case None
          then show ?thesis unfolding Dir q using False
            by (auto simp: stat_Dir_Cons)
        next
          case (Some c)
          have IH: "stat (del xs c) ys = (if xs \<noteq> [] \<and> prefix xs ys then None else stat c ys)"
            by (rule Cons.IH)
          show ?thesis unfolding Dir q using False Some IH
            by (simp add: stat_Dir_Cons update_conv')
        qed
      qed
    qed
  qed
qed


lemma parent_dir:
  assumes "stat t p \<noteq> None" and "p \<noteq> []"
  shows "is_dir t (butlast p)"
proof -
  have "stat t (butlast p @ [last p]) \<noteq> None" using assms by simp
  then show ?thesis unfolding is_dir_stat by (rule stat_above) simp
qed

lemma nothing_below:
  assumes "stat t p \<noteq> Some IsDir" and "prefix p q" and "q \<noteq> p"
  shows "stat t q = None"
proof -
  from assms(2) obtain r where q: "q = p @ r" by (auto simp: prefix_def)
  with assms(3) have "r \<noteq> []" by auto
  with assms(1) show ?thesis unfolding q by (rule stat_below)
qed

lemma stat_leaf: "leaf v \<Longrightarrow> r \<noteq> [] \<Longrightarrow> stat v r = None"
  by (cases v; cases r) (simp_all add: stat_File_Cons stat_Dir_Cons)

lemma stat_put_leaf:
  assumes "leaf v" and "stat t p \<noteq> Some IsDir" and "p = [] \<or> is_dir t (butlast p)"
  shows "stat (put p v t) q = (if q = p then stat v [] else stat t q)"
proof (cases "prefix p q")
  case False
  then have "q \<noteq> p" by auto
  with False stat_put[OF assms(3)] show ?thesis by simp
next
  case True
  show ?thesis
  proof (cases "q = p")
    case True
    then show ?thesis using stat_put[OF assms(3), of v q] by simp
  next
    case False
    from True False have "drop (length p) q \<noteq> []"
      by (auto simp: prefix_def)
    then have "stat v (drop (length p) q) = None" using assms(1) by (simp add: stat_leaf)
    moreover have "stat t q = None" using assms(2) True False by (rule nothing_below)
    ultimately show ?thesis using True False stat_put[OF assms(3), of v q] by simp
  qed
qed

lemma write_file_Raised: "write_file p d t = Raised e t' \<Longrightarrow> t' = t"
  by (auto simp: write_file_def split: option.splits node.splits)

lemma write_file_Done:
  assumes "write_file p d t = Done t'"
  shows "stat t' q = (if q = p then Some (IsFile d) else stat t q)"
proof -
  have t': "t' = put p (File d) t" and nd: "stat t p \<noteq> Some IsDir"
    using assms by (auto simp: write_file_def stat_def split: option.splits node.splits)
  have par: "p = [] \<or> is_dir t (butlast p)"
  proof (cases "stat t p")
    case None
    then have "lookup t p = None" by (simp add: lookup_None_stat)
    with assms show ?thesis
      by (auto simp: write_file_def is_dir_def split: option.splits node.splits)
  next
    case (Some a)
    then show ?thesis using parent_dir[of t p] by auto
  qed
  show ?thesis unfolding t' using stat_put_leaf[OF _ nd par, of "File d" q]
    by (simp add: stat_Nil)
qed

lemma os_mkdir_Raised: "os_mkdir p t = Raised e t' \<Longrightarrow> t' = t"
  by (auto simp: os_mkdir_def split: option.splits node.splits)

lemma os_mkdir_Done:
  assumes "os_mkdir p t = Done t'"
  shows "stat t p = None" and "stat t' q = (if q = p then Some IsDir else stat t q)"
proof -
  have t': "t' = put p (Dir []) t" and nd: "lookup t p = None"
    and par: "is_dir t (butlast p)"
    using assms by (auto simp: os_mkdir_def is_dir_def split: option.splits node.splits)
  from nd show none: "stat t p = None" by (simp add: lookup_None_stat)
  then have "stat t p \<noteq> Some IsDir" by simp
  from stat_put_leaf[OF _ this, of "Dir []" q] par
  show "stat t' q = (if q = p then Some IsDir else stat t q)"
    unfolding t' by (simp add: stat_Nil)
qed

lemma unlink_Raised: "unlink pf p t = Raised e t' \<Longrightarrow> t' = t"
  by (auto simp: unlink_def split: option.splits node.splits)

lemma unlink_Done:
  assumes "unlink pf p t = Done t'" and "p \<noteq> []"
  shows "is_file t p" and "stat t' q = (if q = p then None else stat t q)"
proof -
  have t': "t' = del p t" and f: "is_file t p"
    using assms by (auto simp: unlink_def is_file_def split: option.splits node.splits)
  show "is_file t p" by fact
  from f have nd: "stat t p \<noteq> Some IsDir" by (auto simp: is_file_stat)
  show "stat t' q = (if q = p then None else stat t q)"
  proof (cases "prefix p q \<and> q \<noteq> p")
    case True
    then have "stat t q = None" using nothing_below[OF nd] by simp
    then show ?thesis unfolding t' stat_del using True by simp
  next
    case False
    then show ?thesis unfolding t' stat_del using assms(2) by auto
  qed
qed

lemma unlink_dir: "is_dir t p \<Longrightarrow> \<exists>e. unlink pf p t = Raised e t"
  by (auto simp: unlink_def is_dir_def split: option.splits node.splits)

lemma rename_Raised: "rename pf src dst t = Raised e t' \<Longrightarrow> t' = t"
  by (auto simp: rename_def split: option.splits node.splits if_splits)

lemma rename_file_Done:
  assumes "rename pf src dst t = Done t'" and "stat t src = Some (IsFile d)"
    and "src \<noteq> dst" and "src \<noteq> []" and "dst \<noteq> []"
  shows "stat t' q = (if q = dst then Some (IsFile d) else if q = src then None else stat t q)"
proof -
  have src: "lookup t src = Some (File d)" using assms(2) by (simp add: lookup_File_stat)
  have t': "t' = put dst (File d) (del src t)"
    using assms(1,3) src by (auto simp: rename_def split: option.splits node.splits if_splits)
  have dnd: "stat t dst \<noteq> Some IsDir"
    using assms(1,3) src
    by (auto simp: rename_def stat_def split: option.splits node.splits if_splits)
  have par: "is_dir t (butlast dst)"
  proof (cases "stat t dst")
    case None
    then have "lookup t dst = None" by (simp add: lookup_None_stat)
    with assms(1,3) src show ?thesis
      by (auto simp: rename_def is_dir_def split: option.splits node.splits if_splits)
  next
    case (Some a)
    then show ?thesis using parent_dir[of t dst] assms(5) by auto
  qed
  have snd: "stat t src \<noteq> Some IsDir" using assms(2) by simp
  have below: "\<And>r. prefix src r \<Longrightarrow> r \<noteq> src \<Longrightarrow> stat t r = None"
    using nothing_below[OF snd] by simp
  have del: "\<And>r. stat (del src t) r = (if r = src then None else stat t r)"
    unfolding stat_del using assms(4) below by auto
  have "butlast dst \<noteq> src"
    using par assms(2) by (auto simp: is_dir_stat)
  then have par': "dst = [] \<or> is_dir (del src t) (butlast dst)"
    using par by (simp add: is_dir_stat del)
  have dnd': "stat (del src t) dst \<noteq> Some IsDir"
    using dnd by (simp add: del)
  show ?thesis unfolding t' using stat_put_leaf[OF _ dnd' par', of "File d" q] assms(3)
    by (simp add: stat_Nil del)
qed
subsection \<open>Opening and writing the database\<close>



lemma connect_Done:
  assumes "connect p t = Done t1"
  shows "stat t1 q = (if q = p \<and> stat t p = None then Some (IsFile (Bytes [])) else stat t q)"
    and "stat t1 p \<noteq> Some IsDir" and "stat t1 p \<noteq> None" and "p = [] \<or> is_dir t1 (butlast p)"
proof -
  have "(stat t p = None \<and> is_dir t (butlast p) \<and> t1 = put p (File (Bytes [])) t) \<or>
        ((\<exists>d. stat t p = Some (IsFile d)) \<and> t1 = t)"
    using assms
    by (auto simp: connect_def stat_def is_dir_def split: option.splits node.splits)
  then have "stat t1 q = (if q = p \<and> stat t p = None then Some (IsFile (Bytes [])) else stat t q)
      \<and> stat t1 p \<noteq> Some IsDir \<and> stat t1 p \<noteq> None \<and> (p = [] \<or> is_dir t1 (butlast p))"
  proof (elim disjE conjE exE)
    assume new: "stat t p = None" "is_dir t (butlast p)" "t1 = put p (File (Bytes [])) t"
    have nd: "stat t p \<noteq> Some IsDir" using new(1) by simp
    have st: "\<And>q. stat t1 q = (if q = p then Some (IsFile (Bytes [])) else stat t q)"
      unfolding new(3) using stat_put_leaf[OF _ nd, of "File (Bytes [])"] new(2)
      by (simp add: stat_Nil)
    have "p \<noteq> []" using new(1) by (auto simp: stat_Nil split: node.splits)
    then have "butlast p \<noteq> p" by (metis append_butlast_last_id append_self_conv not_Cons_self2)
    then have "is_dir t1 (butlast p)" using st[of "butlast p"] new(2) by (simp add: is_dir_stat)
    with st new(1) show ?thesis by simp
  next
    fix d assume old: "stat t p = Some (IsFile d)" "t1 = t"
    then have "stat t p \<noteq> None" by simp
    from parent_dir[OF this] old show ?thesis by auto
  qed
  then show "stat t1 q = (if q = p \<and> stat t p = None then Some (IsFile (Bytes [])) else stat t q)"
    and "stat t1 p \<noteq> Some IsDir" and "stat t1 p \<noteq> None" and "p = [] \<or> is_dir t1 (butlast p)"
    by simp_all
qed

lemma connect_Raised: "connect p t = Raised e t' \<Longrightarrow> t' = t"
  by (auto simp: connect_def split: option.splits node.splits)


lemma map_entry_last:
  "name \<notin> fst ` set xs \<Longrightarrow> AList.map_entry name f (xs @ [(name, v)]) = xs @ [(name, f v)]"
  by (induction xs) auto

lemma delete_absent: "name \<notin> fst ` set (AList.delete name db)"
  by (rule delete_notin_dom)

text \<open>Creating the table and inserting the rows, on a database without the table.\<close>

lemma create_insert:
  assumes "name \<notin> fst ` set db"
  shows "and_then (create_table name cols) (insert_rows name rs) db =
     (if \<not> distinct (map (map lower) cols) then Raised OperationalError db
      else if \<not> list_all (list_all storable) rs
        then Raised OverflowError (db @ [(name, \<lparr>tcolumns = cols, trows = []\<rparr>)])
      else Done (db @ [(name, \<lparr>tcolumns = cols, trows = rs\<rparr>)]))"
  using assms
  by (simp add: and_then_def create_table_def insert_rows_def map_entry_last)

lemma to_sql_replace:
  "to_sql df name db Replace False =
     (if [] \<in> set (columns df) then Raised ValueError db
      else if \<not> distinct (map (map lower) (columns df))
        then Raised OperationalError (AList.delete name db)
      else if \<not> list_all (list_all storable) (rows df)
        then Raised OverflowError
          (AList.delete name db @ [(name, \<lparr>tcolumns = columns df, trows = []\<rparr>)])
      else Done (AList.delete name db @ [(name, \<lparr>tcolumns = columns df, trows = rows df\<rparr>)]))"
proof (cases "map_of db name")
  case None
  then have a: "name \<notin> fst ` set db" by (simp add: map_of_eq_None_iff)
  then have "AList.delete name db = db" by simp
  with None a show ?thesis
    by (simp add: to_sql_def frame_table_def Let_def create_insert)
next
  case (Some old)
  then show ?thesis
    by (simp add: to_sql_def frame_table_def Let_def create_insert delete_notin_dom)
qed


lemma to_sql_Done:
  "to_sql df name db Replace False = Done db' \<Longrightarrow>
   sqlite_stores df \<and>
   db' = AList.delete name db @ [(name, \<lparr>tcolumns = columns df, trows = rows df\<rparr>)]"
  by (auto simp: to_sql_replace sqlite_stores_def split: if_splits)

lemma replaced_table:
  assumes "db' = AList.delete name db @ [(name, tbl)]"
  shows "map_of db' name = Some tbl"
    and "length (filter (\<lambda>e. fst e = name) db') = 1"
    and "n \<noteq> name \<Longrightarrow> map_of db' n = map_of db n"
    and "AList.delete name db' = AList.delete name db"
proof -
  show "map_of db' name = Some tbl"
    unfolding assms by (simp add: delete_conv' map_add_def)
  have "filter (\<lambda>e. fst e = name) (AList.delete name db) = []"
    by (auto simp: filter_empty_conv AList.delete_eq)
  then show "length (filter (\<lambda>e. fst e = name) db') = 1" unfolding assms by simp
  show "n \<noteq> name \<Longrightarrow> map_of db' n = map_of db n"
    unfolding assms by (simp add: delete_conv' map_add_def split: option.splits)
  show "AList.delete name db' = AList.delete name db"
    unfolding assms by (simp add: AList.delete_eq)
qed


subsection \<open>The example run\<close>

lemma parse_fixture: "read_csv_plain fixture (CHR 0x09) = Inr fixture_frame"
  by code_simp

lemma convert_fresh: "convert demo_env fresh_world = Done installed_world"
  by code_simp

subsection \<open>Making directories\<close>

lemma through_file_prefix:
  "through_file t p \<Longrightarrow> \<exists>q. strict_prefix q p \<and> is_file t q"
proof (induction t p rule: through_file.induct)
  case (1 t)
  then show ?case by simp
next
  case (2 d x xs)
  have "strict_prefix [] (x # xs)" "is_file (File d) []"
    by (simp_all add: is_file_def)
  then show ?case by blast
next
  case (3 es x xs)
  from "3.prems" obtain c where c: "map_of es x = Some c" and tf: "through_file c xs"
    by (auto split: option.splits)
  from "3.IH"[OF c tf] obtain q where q: "strict_prefix q xs" "is_file c q" by blast
  have "strict_prefix (x # q) (x # xs)" using q(1) by simp
  moreover have "is_file (Dir es) (x # q)" using q(2) c by (simp add: is_file_def)
  ultimately show ?case by blast
qed

lemma mkdir_existing: "is_dir t p \<Longrightarrow> mkdir p parents True t = Done t"
  by (subst mkdir.simps) (auto simp: os_mkdir_def is_dir_def split: option.splits node.splits)

lemma mkdir_Done_is_dir: "mkdir p parents exist_ok t = Done t' \<Longrightarrow> is_dir t' p"
proof (induction p parents exist_ok t rule: mkdir.induct)
  case (1 p parents exist_ok t)
  show ?case
  proof (cases "os_mkdir p t")
    case (Done t1)
    with "1.prems" have "t' = t1" by (subst (asm) mkdir.simps) simp
    with os_mkdir_Done(2)[OF Done, of p] show ?thesis by (simp add: is_dir_stat)
  next
    case (Raised e t1)
    show ?thesis
    proof (cases "e = FileNotFoundError")
      case False
      with "1.prems" Raised show ?thesis
        by (subst (asm) mkdir.simps) (simp split: if_splits)
    next
      case True
      with "1.prems" Raised have go: "parents" "p \<noteq> []"
        by (subst (asm) mkdir.simps, simp split: if_splits)+
      with "1.prems" Raised True obtain t2 where
        t2: "mkdir (butlast p) True True t = Done t2" and fin: "mkdir p False exist_ok t2 = Done t'"
        by (subst (asm) mkdir.simps) (auto split: outcome.splits)
      from "1.IH"(2)[OF Raised True _ t2 fin] go show ?thesis by simp
    qed
  qed
qed

lemma mkdir_grows:
  "stat (final (mkdir p parents exist_ok t)) q = stat t q \<or>
   (stat t q = None \<and> stat (final (mkdir p parents exist_ok t)) q = Some IsDir)"
proof (induction p parents exist_ok t rule: mkdir.induct)
  case (1 p parents exist_ok t)
  show ?case
  proof (cases "os_mkdir p t")
    case (Done t1)
    then have "mkdir p parents exist_ok t = Done t1" by (subst mkdir.simps) simp
    with os_mkdir_Done(2)[OF Done, of q] os_mkdir_Done(1)[OF Done] show ?thesis by auto
  next
    case (Raised e t1)
    show ?thesis
    proof (cases "e = FileNotFoundError \<and> parents \<and> p \<noteq> []")
      case False
      with Raised have "final (mkdir p parents exist_ok t) = t"
        by (subst mkdir.simps) auto
      then show ?thesis by simp
    next
      case True
      show ?thesis
      proof (cases "mkdir (butlast p) True True t")
        case r: (Raised e2 t2)
        with Raised True have "mkdir p parents exist_ok t = Raised e2 t2"
          by (subst mkdir.simps) simp
        with "1.IH"(1)[OF Raised] True r show ?thesis by simp
      next
        case d: (Done t2)
        with Raised True have eq: "mkdir p parents exist_ok t = mkdir p False exist_ok t2"
          by (subst mkdir.simps) simp
        have a: "stat t2 q = stat t q \<or> (stat t q = None \<and> stat t2 q = Some IsDir)"
          using "1.IH"(1)[OF Raised] True d by simp
        have b: "stat (final (mkdir p False exist_ok t2)) q = stat t2 q \<or>
            (stat t2 q = None \<and> stat (final (mkdir p False exist_ok t2)) q = Some IsDir)"
          using "1.IH"(2)[OF Raised _ _ d] True by simp
        from a b show ?thesis unfolding eq by auto
      qed
    qed
  qed
qed

lemma mkdir_parents:
  assumes "list_all (\<lambda>q. \<not> is_file t q) (prefixes p)"
  shows "\<exists>t'. mkdir p True True t = Done t' \<and>
     (\<forall>q. stat t' q = (if prefix q p then Some IsDir else stat t q))"
  using assms
proof (induction p rule: rev_induct)
  case Nil
  then have "is_dir t []" by (cases t) (simp_all add: is_file_def is_dir_def)
  then have "mkdir [] True True t = Done t" by (rule mkdir_existing)
  moreover have "stat t [] = Some IsDir" using \<open>is_dir t []\<close> by (simp add: is_dir_stat)
  ultimately show ?case by (intro exI[of _ t] conjI allI) (simp_all add: prefix_def)
next
  case (snoc x p0)
  let ?p = "p0 @ [x]"
  have nofile: "\<And>q. prefix q ?p \<Longrightarrow> \<not> is_file t q"
    using snoc.prems by (simp add: list_all_iff in_set_prefixes del: prefixes_snoc)
  have "list_all (\<lambda>q. \<not> is_file t q) (prefixes p0)"
    using snoc.prems by simp
  from snoc.IH[OF this] obtain t1 where t1: "mkdir p0 True True t = Done t1"
    and st1: "\<And>q. stat t1 q = (if prefix q p0 then Some IsDir else stat t q)" by blast
  show ?case
  proof (cases "stat t ?p")
    case (Some a)
    with nofile[of ?p] have d: "is_dir t ?p" by (cases a) (auto simp: is_dir_stat is_file_stat)
    have "\<And>q. prefix q ?p \<Longrightarrow> stat t q = Some IsDir"
    proof -
      fix q assume "prefix q ?p"
      then obtain r where r: "?p = q @ r" by (auto simp: prefix_def)
      show "stat t q = Some IsDir"
      proof (cases "r = []")
        case True with r d show ?thesis by (simp add: is_dir_stat)
      next
        case False
        have "stat t (q @ r) \<noteq> None" using d r by (simp add: is_dir_stat)
        then show ?thesis using False by (rule stat_above)
      qed
    qed
    then have "\<forall>q. stat t q = (if prefix q ?p then Some IsDir else stat t q)" by simp
    with mkdir_existing[OF d, of True] show ?thesis by (intro exI[of _ t] conjI)
  next
    case None
    have not_tf: "\<not> through_file t ?p"
    proof
      assume "through_file t ?p"
      from through_file_prefix[OF this] obtain q where "strict_prefix q ?p" "is_file t q" by blast
      with nofile[of q] show False by (auto simp: strict_prefix_def)
    qed
    have lk: "lookup t ?p = None" using None by (simp add: lookup_None_stat)
    show ?thesis
    proof (cases "is_dir t p0")
      case True
      then obtain es where "lookup t p0 = Some (Dir es)"
        by (auto simp: is_dir_def split: option.splits node.splits)
      with lk have om: "os_mkdir ?p t = Done (put ?p (Dir []) t)"
        by (simp add: os_mkdir_def)
      then have mk: "mkdir ?p True True t = Done (put ?p (Dir []) t)"
        by (subst mkdir.simps) simp
      have "\<And>q. stat (put ?p (Dir []) t) q = (if prefix q ?p then Some IsDir else stat t q)"
      proof -
        fix q
        have "prefix q p0 \<Longrightarrow> stat t q = Some IsDir"
        proof -
          assume "prefix q p0"
          then obtain r where r: "p0 = q @ r" by (auto simp: prefix_def)
          show ?thesis
          proof (cases "r = []")
            case True with r \<open>is_dir t p0\<close> show ?thesis by (simp add: is_dir_stat)
          next
            case False
            have "stat t (q @ r) \<noteq> None" using \<open>is_dir t p0\<close> r by (simp add: is_dir_stat)
            then show ?thesis using False by (rule stat_above)
          qed
        qed
        moreover have "stat (put ?p (Dir []) t) q = (if q = ?p then Some IsDir else stat t q)"
          by (rule os_mkdir_Done(2)[OF om])
        moreover have "prefix q ?p \<longleftrightarrow> q = ?p \<or> prefix q p0"
          by (auto simp: prefix_snoc)
        ultimately show "stat (put ?p (Dir []) t) q = (if prefix q ?p then Some IsDir else stat t q)"
          by simp
      qed
      then have "\<forall>q. stat (put ?p (Dir []) t) q = (if prefix q ?p then Some IsDir else stat t q)"
        by (rule allI)
      with mk show ?thesis by (intro exI[of _ "put ?p (Dir []) t"] conjI)
    next
      case False
      have "\<not> is_file t p0" using nofile[of p0] by simp
      with False have "lookup t p0 = None"
        by (auto simp: is_dir_def is_file_def split: option.splits node.splits)
      with lk not_tf have om: "os_mkdir ?p t = Raised FileNotFoundError t"
        by (simp add: os_mkdir_def)
      have "stat t1 ?p = None" using st1[of ?p] None by simp
      then have lk1: "lookup t1 ?p = None" by (simp add: lookup_None_stat)
      have "stat t1 p0 = Some IsDir" using st1[of p0] by simp
      then obtain es where "lookup t1 p0 = Some (Dir es)"
        using lookup_Dir_stat[of t1 p0] by auto
      with lk1 have om1: "os_mkdir ?p t1 = Done (put ?p (Dir []) t1)"
        by (simp add: os_mkdir_def)
      then have "mkdir ?p False True t1 = Done (put ?p (Dir []) t1)"
        by (subst mkdir.simps) simp
      with om t1 have mk: "mkdir ?p True True t = Done (put ?p (Dir []) t1)"
        by (subst mkdir.simps) simp
      have "\<And>q. stat (put ?p (Dir []) t1) q = (if prefix q ?p then Some IsDir else stat t q)"
      proof -
        fix q
        have a: "stat (put ?p (Dir []) t1) q = (if q = ?p then Some IsDir else stat t1 q)"
          by (rule os_mkdir_Done(2)[OF om1])
        have b: "stat t1 q = (if prefix q p0 then Some IsDir else stat t q)" by (rule st1)
        have c: "prefix q ?p \<longleftrightarrow> q = ?p \<or> prefix q p0" by (auto simp: prefix_snoc)
        show "stat (put ?p (Dir []) t1) q = (if prefix q ?p then Some IsDir else stat t q)"
          unfolding a b c by simp
      qed
      then have "\<forall>q. stat (put ?p (Dir []) t1) q = (if prefix q ?p then Some IsDir else stat t q)"
        by (rule allI)
      with mk show ?thesis by (intro exI[of _ "put ?p (Dir []) t1"] conjI)
    qed
  qed
qed

subsection \<open>Sequencing\<close>

lemma and_then_Done:
  "and_then f g s = Done s' \<longleftrightarrow> (\<exists>s1. f s = Done s1 \<and> g s1 = Done s')"
  by (auto simp: and_then_def split: outcome.splits)

lemma and_then_Raised:
  "and_then f g s = Raised e s' \<longleftrightarrow>
     f s = Raised e s' \<or> (\<exists>s1. f s = Done s1 \<and> g s1 = Raised e s')"
  by (auto simp: and_then_def split: outcome.splits)

lemma on_fs_Done: "on_fs f w = Done w' \<longleftrightarrow> (\<exists>t. f (fs w) = Done t \<and> w' = w\<lparr>fs := t\<rparr>)"
  by (auto simp: on_fs_def split: outcome.splits)

lemma on_fs_Raised: "on_fs f w = Raised e w' \<longleftrightarrow> (\<exists>t. f (fs w) = Raised e t \<and> w' = w\<lparr>fs := t\<rparr>)"
  by (auto simp: on_fs_def split: outcome.splits)


subsection \<open>The cleanup loop\<close>

lemma iterdir_names:
  assumes "iterdir p t = Inr names"
  shows "is_dir t p" and "stat t (p @ [n]) \<noteq> None \<longleftrightarrow> n \<in> set names"
proof -
  from assms obtain es where es: "lookup t p = Some (Dir es)" and names: "names = map fst es"
    by (auto simp: iterdir_def split: option.splits node.splits)
  show "is_dir t p" using es by (simp add: is_dir_def)
  have "lookup t (p @ [n]) = map_of es n"
    unfolding lookup_append es by (simp split: option.splits)
  then have "stat t (p @ [n]) \<noteq> None \<longleftrightarrow> map_of es n \<noteq> None"
    using lookup_None_stat[of t "p @ [n]"] by simp
  also have "\<dots> \<longleftrightarrow> n \<in> set names"
    unfolding names by (simp add: map_of_eq_None_iff)
  finally show "stat t (p @ [n]) \<noteq> None \<longleftrightarrow> n \<in> set names" .
qed

lemma iterdir_dir:
  assumes "is_dir t p"
  shows "\<exists>names. iterdir p t = Inr names"
  using assms by (auto simp: iterdir_def is_dir_def split: option.splits node.splits)

lemma remove_docs_Done:
  "remove_docs E names t = Done t' \<Longrightarrow>
   stat t' q =
     (if \<exists>n \<in> set names. (startswith n ''LICENSE'' \<or> startswith n ''README'') \<and>
           q = script_dir E @ [n]
      then None else stat t q)"
proof (induction names arbitrary: t)
  case Nil
  then show ?case by simp
next
  case (Cons name names)
  show ?case
  proof (cases "startswith name ''LICENSE'' \<or> startswith name ''README''")
    case False
    with Cons.prems have "remove_docs E names t = Done t'" by simp
    from Cons.IH[OF this] False show ?thesis by auto
  next
    case True
    with Cons.prems obtain t1 where
      u: "unlink (os_platform E) (script_dir E @ [name]) t = Done t1"
      and r: "remove_docs E names t1 = Done t'"
      by (auto simp: and_then_Done)
    have s1: "stat t1 q = (if q = script_dir E @ [name] then None else stat t q)"
      using unlink_Done(2)[OF u] by simp
    from Cons.IH[OF r] s1 True show ?thesis by auto
  qed
qed

lemma remove_docs_dir:
  "n \<in> set names \<Longrightarrow> startswith n ''LICENSE'' \<or> startswith n ''README'' \<Longrightarrow>
   is_dir t (script_dir E @ [n]) \<Longrightarrow> \<exists>e t'. remove_docs E names t = Raised e t'"
proof (induction names arbitrary: t)
  case Nil
  then show ?case by simp
next
  case (Cons name names)
  show ?case
  proof (cases "startswith name ''LICENSE'' \<or> startswith name ''README''")
    case False
    with Cons.prems have "n \<in> set names" by auto
    from Cons.IH[OF this Cons.prems(2,3)] False show ?thesis by simp
  next
    case True
    show ?thesis
    proof (cases "unlink (os_platform E) (script_dir E @ [name]) t")
      case (Raised e t1)
      with True show ?thesis by (simp add: and_then_def)
    next
      case (Done t1)
      have s1: "stat t1 (script_dir E @ [n]) =
          (if script_dir E @ [n] = script_dir E @ [name] then None
           else stat t (script_dir E @ [n]))"
        using unlink_Done(2)[OF Done] by simp
      have "is_file t (script_dir E @ [name])" using unlink_Done(1)[OF Done] by simp
      with Cons.prems(3) have ne: "name \<noteq> n" by (auto simp: is_file_stat is_dir_stat)
      with Cons.prems(1) have "n \<in> set names" by auto
      moreover have "is_dir t1 (script_dir E @ [n])"
        using s1 ne Cons.prems(3) by (simp add: is_dir_stat)
      ultimately obtain e t' where "remove_docs E names t1 = Raised e t'"
        using Cons.IH[OF _ Cons.prems(2)] by blast
      with True Done show ?thesis by (simp add: and_then_def)
    qed
  qed
qed

lemma cleanup_Done:
  assumes "cleanup E w = Done w'"
  shows "events w' = events w"
    and "stat (fs w') q =
      (if q = zip_path E \<or>
          (\<exists>n. (startswith n ''LICENSE'' \<or> startswith n ''README'') \<and> q = script_dir E @ [n])
       then None else stat (fs w) q)"
proof -
  from assms obtain t1 t' where
    u: "unlink (os_platform E) (zip_path E) (fs w) = Done t1"
    and c: "(case iterdir (script_dir E) t1 of Inl e \<Rightarrow> Raised e t1
             | Inr names \<Rightarrow> remove_docs E names t1) = Done t'"
    and w': "w' = w\<lparr>fs := t'\<rparr>"
    unfolding cleanup_def on_fs_Done and_then_Done by blast
  from c obtain names where it: "iterdir (script_dir E) t1 = Inr names"
    and r: "remove_docs E names t1 = Done t'"
    by (cases "iterdir (script_dir E) t1") simp_all
  show "events w' = events w" using w' by simp
  have s1: "stat t1 q = (if q = zip_path E then None else stat (fs w) q)"
    using unlink_Done(2)[OF u] by (simp add: zip_path_def)
  have s2: "stat t' q =
     (if \<exists>n \<in> set names. (startswith n ''LICENSE'' \<or> startswith n ''README'') \<and>
           q = script_dir E @ [n]
      then None else stat t1 q)"
    using r by (rule remove_docs_Done)
  show "stat (fs w') q =
      (if q = zip_path E \<or>
          (\<exists>n. (startswith n ''LICENSE'' \<or> startswith n ''README'') \<and> q = script_dir E @ [n])
       then None else stat (fs w) q)"
  proof (cases "\<exists>n. (startswith n ''LICENSE'' \<or> startswith n ''README'') \<and> q = script_dir E @ [n]")
    case False
    then show ?thesis using s1 s2 w' by auto
  next
    case True
    then obtain n where n: "startswith n ''LICENSE'' \<or> startswith n ''README''"
      and q: "q = script_dir E @ [n]" by blast
    show ?thesis
    proof (cases "n \<in> set names")
      case True
      with n q s2 have "stat t' q = None" by auto
      with n q w' show ?thesis by auto
    next
      case False
      then have "stat t1 q = None" using iterdir_names(2)[OF it, of n] q by simp
      moreover have "stat t' q = stat t1 q" using s2 False q by auto
      ultimately show ?thesis using n q w' by auto
    qed
  qed
qed

lemma cleanup_dir:
  assumes "is_dir (fs w) (script_dir E @ [n])"
    and "startswith n ''LICENSE'' \<or> startswith n ''README''"
  shows "\<exists>e w'. cleanup E w = Raised e w' \<and> events w' = events w"
proof (cases "unlink (os_platform E) (zip_path E) (fs w)")
  case (Raised e t1)
  then have "cleanup E w = Raised e (w\<lparr>fs := t1\<rparr>)"
    by (simp add: cleanup_def on_fs_def and_then_def)
  then show ?thesis by simp
next
  case (Done t1)
  have s1: "\<And>q. stat t1 q = (if q = zip_path E then None else stat (fs w) q)"
    using unlink_Done(2)[OF Done] by (simp add: zip_path_def)
  have "is_file (fs w) (zip_path E)" using unlink_Done(1)[OF Done] by (simp add: zip_path_def)
  with assms(1) have "script_dir E @ [n] \<noteq> zip_path E"
    by (auto simp: is_file_stat is_dir_stat)
  with s1 assms(1) have d1: "is_dir t1 (script_dir E @ [n])" by (simp add: is_dir_stat)
  then have "stat t1 (script_dir E @ [n]) \<noteq> None" by (simp add: is_dir_stat)
  then have "is_dir t1 (script_dir E)"
    unfolding is_dir_stat by (rule stat_above) simp
  then obtain names where it: "iterdir (script_dir E) t1 = Inr names"
    using iterdir_dir by blast
  have "n \<in> set names" using iterdir_names(2)[OF it, of n] d1 by (simp add: is_dir_stat)
  from remove_docs_dir[OF this assms(2) d1] obtain e t' where
    "remove_docs E names t1 = Raised e t'" by blast
  with Done it have "cleanup E w = Raised e (w\<lparr>fs := t'\<rparr>)"
    by (simp add: cleanup_def on_fs_def and_then_def)
  then show ?thesis by simp
qed

subsection \<open>Parse and store\<close>

lemma names_differ:
  "tsv_name \<noteq> db_name" "zip_name \<noteq> db_name" "tsv_name \<noteq> zip_name"
  "\<not> startswith tsv_name ''LICENSE''" "\<not> startswith tsv_name ''README''"
  "\<not> startswith zip_name ''LICENSE''" "\<not> startswith zip_name ''README''"
  by (simp_all add: tsv_name_def db_name_def zip_name_def startswith_def)

lemma paths_differ:
  "tsv_file E \<noteq> db_path E'" "zip_path E \<noteq> db_path E'" "tsv_file E \<noteq> zip_path E'"
  using names_differ(1-3)
  by (auto simp: tsv_file_def db_path_def zip_path_def)

lemma write_db_cases:
  assumes "write_db E df w = Done w'"
  obtains t db0 db where "connect (db_path E) (fs w) = Done t"
    and "read_db (db_path E) t = Inr db0"
    and "to_sql df table_name db0 Replace False = Done db"
    and "w' = w\<lparr>fs := put (db_path E) (File (Sqlite db)) t,
                 events := events w @ [TableWrite (db_path E) table_name]\<rparr>"
  using assms
  by (auto simp: write_db_def split: outcome.splits sum.splits)

lemma write_db_Done:
  assumes "write_db E df w = Done w'"
  shows "events w' = events w @ [TableWrite (db_path E) table_name]"
    and "\<exists>db. stat (fs w') (db_path E) = Some (IsFile (Sqlite db)) \<and>
           map_of db table_name = Some \<lparr>tcolumns = columns df, trows = rows df\<rparr> \<and>
           length (filter (\<lambda>e. fst e = table_name) db) = 1"
    and "q \<noteq> db_path E \<Longrightarrow> stat (fs w') q = stat (fs w) q"
proof -
  from assms obtain t db0 db where c: "connect (db_path E) (fs w) = Done t"
    and s: "to_sql df table_name db0 Replace False = Done db"
    and w': "w' = w\<lparr>fs := put (db_path E) (File (Sqlite db)) t,
                      events := events w @ [TableWrite (db_path E) table_name]\<rparr>"
    by (rule write_db_cases)
  show "events w' = events w @ [TableWrite (db_path E) table_name]" using w' by simp
  have st: "\<And>q. stat (fs w') q =
      (if q = db_path E then Some (IsFile (Sqlite db)) else stat t q)"
    unfolding w'
    using stat_put_leaf[OF _ connect_Done(2)[OF c] connect_Done(4)[OF c], of "File (Sqlite db)"]
    by (simp add: stat_Nil)
  show "q \<noteq> db_path E \<Longrightarrow> stat (fs w') q = stat (fs w) q"
    using st connect_Done(1)[OF c, of q] by simp
  have db: "db = AList.delete table_name db0 @
      [(table_name, \<lparr>tcolumns = columns df, trows = rows df\<rparr>)]"
    using to_sql_Done[OF s] by simp
  from st replaced_table(1,2)[OF db]
  show "\<exists>db. stat (fs w') (db_path E) = Some (IsFile (Sqlite db)) \<and>
           map_of db table_name = Some \<lparr>tcolumns = columns df, trows = rows df\<rparr> \<and>
           length (filter (\<lambda>e. fst e = table_name) db) = 1"
    by auto
qed

text \<open>Writing a frame that SQLite can store, at a path that opens as a database.\<close>

lemma db_state_stat:
  "stat t p = Some (IsFile (Sqlite db)) \<Longrightarrow> db_state p t = Some db"
  by (auto simp: db_state_def stat_def split: option.splits node.splits)



lemma make_app_data_dir_Done:
  assumes "make_app_data_dir E w = Done w'"
  shows "events w' = events w"
    and "stat (fs w') q = stat (fs w) q \<or> (stat (fs w) q = None \<and> stat (fs w') q = Some IsDir)"
proof -
  from assms obtain t where mk: "mkdir (app_data_dir E) True True (fs w) = Done t"
    and w': "w' = w\<lparr>fs := t\<rparr>"
    by (auto simp: make_app_data_dir_def on_fs_Done)
  show "events w' = events w" using w' by simp
  from mkdir_grows[of "app_data_dir E" True True "fs w" q] mk w'
  show "stat (fs w') q = stat (fs w) q \<or> (stat (fs w) q = None \<and> stat (fs w') q = Some IsDir)"
    by simp
qed

lemma read_csv_Inr:
  assumes "read_csv E p sep w = Inr df"
  shows "\<exists>s. stat (fs w) p = Some (IsFile (Bytes s)) \<and> pd_read_csv E s sep = Inr df"
  using assms
  by (auto simp: read_csv_def stat_def split: option.splits node.splits fdata.splits)

lemma parse_and_store_Done:
  assumes "parse_and_store E w = Done w'"
  shows "\<exists>s df db.
     stat (fs w) (tsv_file E) = Some (IsFile (Bytes s)) \<and>
     stat (fs w') (tsv_file E) = Some (IsFile (Bytes s)) \<and>
     pd_read_csv E s (CHR 0x09) = Inr df \<and>
     stat (fs w') (db_path E) = Some (IsFile (Sqlite db)) \<and>
     map_of db table_name = Some \<lparr>tcolumns = columns df, trows = rows df\<rparr> \<and>
     length (filter (\<lambda>e. fst e = table_name) db) = 1"
    and "events w' = events w @ [TableWrite (db_path E) table_name]"
    and "is_file (fs w') q \<Longrightarrow> q = db_path E \<or> is_file (fs w) q"
proof -
  from assms obtain df where rd: "read_csv E (tsv_file E) (CHR 0x09) w = Inr df"
    and rest: "and_then (make_app_data_dir E) (write_db E df) w = Done w'"
    by (auto simp: parse_and_store_def split: sum.splits)
  from rest obtain w1 where mk: "make_app_data_dir E w = Done w1"
    and wr: "write_db E df w1 = Done w'"
    by (auto simp: and_then_Done)
  from read_csv_Inr[OF rd] obtain s where s: "stat (fs w) (tsv_file E) = Some (IsFile (Bytes s))"
    and p: "pd_read_csv E s (CHR 0x09) = Inr df" by blast
  have s1: "stat (fs w1) (tsv_file E) = Some (IsFile (Bytes s))"
    using make_app_data_dir_Done(2)[OF mk, of "tsv_file E"] s by auto
  have s2: "stat (fs w') (tsv_file E) = Some (IsFile (Bytes s))"
    using write_db_Done(3)[OF wr, of "tsv_file E"] s1 paths_differ(1) by simp
  from write_db_Done(2)[OF wr] s s2 p
  show "\<exists>s df db.
     stat (fs w) (tsv_file E) = Some (IsFile (Bytes s)) \<and>
     stat (fs w') (tsv_file E) = Some (IsFile (Bytes s)) \<and>
     pd_read_csv E s (CHR 0x09) = Inr df \<and>
     stat (fs w') (db_path E) = Some (IsFile (Sqlite db)) \<and>
     map_of db table_name = Some \<lparr>tcolumns = columns df, trows = rows df\<rparr> \<and>
     length (filter (\<lambda>e. fst e = table_name) db) = 1"
    by blast
  show "events w' = events w @ [TableWrite (db_path E) table_name]"
    using write_db_Done(1)[OF wr] make_app_data_dir_Done(1)[OF mk] by simp
  show "q = db_path E \<or> is_file (fs w) q" if f: "is_file (fs w') q"
  proof (cases "q = db_path E")
    case True then show ?thesis by simp
  next
    case False
    then have "stat (fs w') q = stat (fs w1) q" using write_db_Done(3)[OF wr] by simp
    with f make_app_data_dir_Done(2)[OF mk, of q] show ?thesis
      by (auto simp: is_file_stat)
  qed
qed



subsection \<open>Well-formed trees and the walk\<close>

lemma set_update_cases: "e \<in> set (AList.update k v al) \<Longrightarrow> e = (k, v) \<or> e \<in> set al"
  by (induction al) (auto split: if_splits)

lemma well_formed_child:
  assumes "well_formed (Dir es)" and "map_of es x = Some c"
  shows "well_formed c"
proof -
  from assms(2) have "(x, c) \<in> set es" by (rule map_of_SomeD)
  with assms(1) show ?thesis by (auto simp: list_all_iff)
qed

lemma well_formed_update:
  assumes "well_formed (Dir es)" and "well_formed c"
  shows "well_formed (Dir (AList.update x c es))"
proof -
  have "distinct (map fst (AList.update x c es))"
    using assms(1) by (simp add: distinct_update)
  moreover have "well_formed (snd e)" if "e \<in> set (AList.update x c es)" for e
    using set_update_cases[OF that] assms by (auto simp: list_all_iff)
  ultimately show ?thesis by (simp add: list_all_iff)
qed

lemma well_formed_put:
  "well_formed t \<Longrightarrow> well_formed v \<Longrightarrow> well_formed (put p v t)"
proof (induction p arbitrary: t)
  case Nil
  then show ?case by simp
next
  case (Cons x xs)
  show ?case
  proof (cases t)
    case (File d)
    then show ?thesis by simp
  next
    case (Dir es)
    show ?thesis
    proof (cases "map_of es x")
      case None
      then have "x \<notin> fst ` set es" by (simp add: map_of_eq_None_iff)
      with Cons.prems Dir None show ?thesis by (auto simp: list_all_iff)
    next
      case (Some c)
      have "well_formed c" using Cons.prems(1) Some unfolding Dir by (rule well_formed_child)
      then have "well_formed (put xs v c)" using Cons.prems(2) by (rule Cons.IH)
      with Cons.prems(1) have "well_formed (Dir (AList.update x (put xs v c) es))"
        unfolding Dir by (rule well_formed_update)
      with Some Dir show ?thesis by simp
    qed
  qed
qed

lemma well_formed_lookup:
  "well_formed t \<Longrightarrow> lookup t q = Some c \<Longrightarrow> well_formed c"
proof (induction q arbitrary: t)
  case Nil
  then show ?case by simp
next
  case (Cons x xs)
  show ?case
  proof (cases t)
    case (File d)
    with Cons.prems show ?thesis by simp
  next
    case (Dir es)
    with Cons.prems obtain c' where c': "map_of es x = Some c'" and l: "lookup c' xs = Some c"
      by (auto split: option.splits)
    have "well_formed c'" using Cons.prems(1) c' unfolding Dir by (rule well_formed_child)
    then show ?thesis using l by (rule Cons.IH)
  qed
qed

text \<open>Every directory of the tree has its triple in the walk.\<close>

lemma walk_complete:
  "lookup node q = Some (Dir es) \<Longrightarrow>
   (root @ q, dirnames es, filenames es) \<in> set (walk root node)"
proof (induction q arbitrary: node root)
  case Nil
  then show ?case by simp
next
  case (Cons x xs)
  show ?case
  proof (cases node)
    case (File d)
    with Cons.prems show ?thesis by simp
  next
    case (Dir es0)
    with Cons.prems obtain c where c: "map_of es0 x = Some c" and l: "lookup c xs = Some (Dir es)"
      by (auto split: option.splits)
    have "((root @ [x]) @ xs, dirnames es, filenames es) \<in> set (walk (root @ [x]) c)"
      using l by (rule Cons.IH)
    moreover have "(x, c) \<in> set es0" using c by (rule map_of_SomeD)
    ultimately show ?thesis unfolding Dir by force
  qed
qed

text \<open>Every triple of the walk is that of a directory of the tree.\<close>

lemma walk_sound:
  "(r, ds, fl) \<in> set (walk root node) \<Longrightarrow> well_formed node \<Longrightarrow>
   \<exists>q es. r = root @ q \<and> lookup node q = Some (Dir es) \<and> ds = dirnames es \<and> fl = filenames es"
proof (induction root node arbitrary: r ds fl rule: walk.induct)
  case (1 root d)
  then show ?case by simp
next
  case (2 root es0)
  show ?case
  proof (cases "(r, ds, fl) = (root, dirnames es0, filenames es0)")
    case True
    then have "r = root @ [] \<and> lookup (Dir es0) [] = Some (Dir es0) \<and>
        ds = dirnames es0 \<and> fl = filenames es0" by simp
    then show ?thesis by blast
  next
    case False
    with "2.prems"(1) obtain e where e: "e \<in> set es0"
      and m: "(r, ds, fl) \<in> set (walk (root @ [fst e]) (snd e))"
      by auto
    have wfe: "well_formed (snd e)" using "2.prems"(2) e by (auto simp: list_all_iff)
    from "2.IH"[OF e m wfe] obtain q es where q: "r = (root @ [fst e]) @ q"
      and l: "lookup (snd e) q = Some (Dir es)" and d: "ds = dirnames es" "fl = filenames es"
      by blast
    have "map_of es0 (fst e) = Some (snd e)"
      using "2.prems"(2) e by (intro map_of_is_SomeI) simp_all
    then have "lookup (Dir es0) (fst e # q) = Some (Dir es)" using l by simp
    moreover have "r = root @ (fst e # q)" using q by simp
    ultimately show ?thesis using d by blast
  qed
qed

lemma filenames_file:
  assumes "n \<in> set (filenames es)" and "distinct (map fst es)"
  shows "\<exists>d. map_of es n = Some (File d)"
proof -
  from assms(1) obtain c where c: "(n, c) \<in> set es" "\<not> node_is_dir c"
    by (auto simp: filenames_def)
  then obtain d where "c = File d" by (cases c) auto
  with c(1) assms(2) show ?thesis by (auto intro: map_of_is_SomeI)
qed

lemma file_in_filenames:
  assumes "map_of es n = Some (File d)"
  shows "n \<in> set (filenames es)"
proof -
  from assms have "(n, File d) \<in> set es" by (rule map_of_SomeD)
  then show ?thesis by (force simp: filenames_def)
qed

text \<open>A file below the start of a walk is listed by it; in a well-formed tree, what a
  walk lists as a file is one.\<close>

lemma os_walk_lists_file:
  assumes "is_file t (start @ rel @ [n])"
  shows "\<exists>ds fl. (start @ rel, ds, fl) \<in> set (os_walk start t) \<and> n \<in> set fl"
proof -
  from assms obtain d where f: "lookup t ((start @ rel) @ [n]) = Some (File d)"
    by (auto simp: is_file_def split: option.splits node.splits)
  then obtain c where c: "lookup t (start @ rel) = Some c" and cn: "lookup c [n] = Some (File d)"
    unfolding lookup_append[of t "start @ rel"] by (auto split: option.splits)
  from cn obtain es where es: "c = Dir es" and m: "map_of es n = Some (File d)"
    by (cases c) (auto split: option.splits)
  from c obtain s where s: "lookup t start = Some s" and sr: "lookup s rel = Some (Dir es)"
    unfolding lookup_append[of t start] es by (auto split: option.splits)
  have "(start @ rel, dirnames es, filenames es) \<in> set (walk start s)"
    using sr by (rule walk_complete)
  then have "(start @ rel, dirnames es, filenames es) \<in> set (os_walk start t)"
    using s by (simp add: os_walk_def)
  moreover have "n \<in> set (filenames es)" using m by (rule file_in_filenames)
  ultimately show ?thesis by blast
qed

lemma os_walk_file_listed:
  assumes "(r, ds, fl) \<in> set (os_walk start t)" and "n \<in> set fl" and "well_formed t"
  shows "\<exists>rel. r = start @ rel \<and> is_file t (start @ rel @ [n])"
proof -
  from assms(1) obtain s where s: "lookup t start = Some s" and w: "(r, ds, fl) \<in> set (walk start s)"
    by (cases "lookup t start") (simp_all add: os_walk_def)
  have wfs: "well_formed s" using assms(3) s by (rule well_formed_lookup)
  from walk_sound[OF w wfs] obtain q es where q: "r = start @ q"
    and l: "lookup s q = Some (Dir es)" and fl: "fl = filenames es" by blast
  have "well_formed (Dir es)" using wfs l by (rule well_formed_lookup)
  then have "distinct (map fst es)" by simp
  with assms(2) fl obtain d where "map_of es n = Some (File d)"
    using filenames_file by blast
  then have "lookup s (q @ [n]) = Some (File d)"
    unfolding lookup_append[of s q] l by simp
  then have "lookup t (start @ q @ [n]) = Some (File d)"
    unfolding lookup_append[of t start] s by simp
  then have "is_file t (start @ q @ [n])" by (simp add: is_file_def)
  with q show ?thesis by blast
qed

subsection \<open>Extraction\<close>

lemma os_mkdir_well_formed: "well_formed t \<Longrightarrow> os_mkdir p t = Done t' \<Longrightarrow> well_formed t'"
  by (auto simp: os_mkdir_def well_formed_put split: option.splits node.splits)

lemma write_file_well_formed: "well_formed t \<Longrightarrow> write_file p d t = Done t' \<Longrightarrow> well_formed t'"
  by (auto simp: write_file_def well_formed_put split: option.splits node.splits)

lemma mkdir_well_formed:
  "mkdir p parents exist_ok t = Done t' \<Longrightarrow> well_formed t \<Longrightarrow> well_formed t'"
proof (induction p parents exist_ok t arbitrary: t' rule: mkdir.induct)
  case (1 p parents exist_ok t)
  show ?case
  proof (cases "os_mkdir p t")
    case (Done t1)
    with "1.prems"(1) have "t' = t1" by (subst (asm) mkdir.simps) simp
    with os_mkdir_well_formed[OF "1.prems"(2) Done] show ?thesis by simp
  next
    case (Raised e t1)
    show ?thesis
    proof (cases "e = FileNotFoundError")
      case False
      with "1.prems" Raised show ?thesis
        by (subst (asm) mkdir.simps) (simp split: if_splits)
    next
      case True
      with "1.prems"(1) Raised have go: "parents" "p \<noteq> []"
        by (subst (asm) mkdir.simps, simp split: if_splits)+
      with "1.prems"(1) Raised True obtain t2 where
        t2: "mkdir (butlast p) True True t = Done t2" and fin: "mkdir p False exist_ok t2 = Done t'"
        by (subst (asm) mkdir.simps) (auto split: outcome.splits)
      have "well_formed t2" using "1.IH"(1)[OF Raised True _ t2 "1.prems"(2)] go by simp
      then show ?thesis using "1.IH"(2)[OF Raised True _ t2 fin] go by simp
    qed
  qed
qed

lemma mkdir_Done_stat:
  assumes "mkdir p parents exist_ok t = Done t'"
  shows "stat t' q = stat t q \<or> (stat t q = None \<and> stat t' q = Some IsDir)"
  using mkdir_grows[of p parents exist_ok t q] assms by simp

text \<open>One member of the archive.\<close>

lemma extract_member_Done:
  assumes "extract_member dir m t = Done t'"
  shows "well_formed t \<Longrightarrow> well_formed t'"
    and "is_file t q \<Longrightarrow> is_file t' q"
    and "is_file t' q \<Longrightarrow> is_file t q \<or> (snd m \<noteq> None \<and> q = dir @ fst m)"
    and "snd m \<noteq> None \<Longrightarrow> is_file t' (dir @ fst m)"
proof -
  let ?target = "dir @ fst m"
  from assms obtain t1 where
    s1: "(if \<not> exists t (butlast ?target) then mkdir (butlast ?target) True True t else Done t)
          = Done t1"
    and s2: "(case snd m of None \<Rightarrow> if is_dir t1 ?target then Done t1 else os_mkdir ?target t1
              | Some d \<Rightarrow> write_file ?target d t1) = Done t'"
    by (auto simp: extract_member_def Let_def and_then_Done)
  have wf1: "well_formed t \<Longrightarrow> well_formed t1"
    using s1 mkdir_well_formed by (auto split: if_splits)
  have st1: "\<And>q. stat t1 q = stat t q \<or> (stat t q = None \<and> stat t1 q = Some IsDir)"
    using s1 mkdir_Done_stat by (auto split: if_splits)
  have f1: "\<And>q. is_file t1 q \<longleftrightarrow> is_file t q"
    using st1 by (auto simp: is_file_stat) (metis option.distinct(1) option.inject entry.distinct(1))+
  show "well_formed t \<Longrightarrow> well_formed t'"
    "is_file t q \<Longrightarrow> is_file t' q"
    "is_file t' q \<Longrightarrow> is_file t q \<or> (snd m \<noteq> None \<and> q = dir @ fst m)"
    "snd m \<noteq> None \<Longrightarrow> is_file t' (dir @ fst m)"
  proof -
    show "well_formed t \<Longrightarrow> well_formed t'"
    proof (cases "snd m")
      case None
      assume "well_formed t"
      with wf1 s2 None os_mkdir_well_formed show ?thesis by (auto split: if_splits)
    next
      case (Some d)
      assume "well_formed t"
      with wf1 s2 Some write_file_well_formed show ?thesis by auto
    qed
    have st2: "\<And>q. snd m = None \<Longrightarrow> is_file t' q \<longleftrightarrow> is_file t1 q"
    proof -
      fix q assume n: "snd m = None"
      show "is_file t' q \<longleftrightarrow> is_file t1 q"
      proof (cases "is_dir t1 ?target")
        case True
        with s2 n show ?thesis by simp
      next
        case False
        with s2 n have om: "os_mkdir ?target t1 = Done t'" by simp
        from os_mkdir_Done(2)[OF om, of q] os_mkdir_Done(1)[OF om] show ?thesis
          by (auto simp: is_file_stat)
      qed
    qed
    have st3: "\<And>q d. snd m = Some d \<Longrightarrow>
        stat t' q = (if q = ?target then Some (IsFile d) else stat t1 q)"
    proof -
      fix q d assume "snd m = Some d"
      with s2 have "write_file ?target d t1 = Done t'" by simp
      then show "stat t' q = (if q = ?target then Some (IsFile d) else stat t1 q)"
        by (rule write_file_Done)
    qed
    show "is_file t q \<Longrightarrow> is_file t' q"
      using f1[of q] st2[of q] st3[of _ q] by (cases "snd m") (auto simp: is_file_stat)
    show "is_file t' q \<Longrightarrow> is_file t q \<or> (snd m \<noteq> None \<and> q = dir @ fst m)"
      using f1[of q] st2[of q] st3[of _ q] by (cases "snd m") (auto simp: is_file_stat split: if_splits)
    show "snd m \<noteq> None \<Longrightarrow> is_file t' (dir @ fst m)"
      using st3[of _ ?target] by (cases "snd m") (auto simp: is_file_stat)
  qed
qed

lemma extract_members_well_formed:
  "extract_members dir ms t = Done t' \<Longrightarrow> well_formed t \<Longrightarrow> well_formed t'"
proof (induction ms arbitrary: t)
  case Nil
  then show ?case by simp
next
  case (Cons m0 ms)
  then obtain t1 where a: "extract_member dir m0 t = Done t1"
    and b: "extract_members dir ms t1 = Done t'" by (auto simp: and_then_Done)
  from extract_member_Done(1)[OF a] Cons.prems(2) have "well_formed t1" by simp
  with b show ?case by (rule Cons.IH)
qed

lemma extract_members_keeps:
  "extract_members dir ms t = Done t' \<Longrightarrow> is_file t q \<Longrightarrow> is_file t' q"
proof (induction ms arbitrary: t)
  case Nil
  then show ?case by simp
next
  case (Cons m0 ms)
  then obtain t1 where a: "extract_member dir m0 t = Done t1"
    and b: "extract_members dir ms t1 = Done t'" by (auto simp: and_then_Done)
  from extract_member_Done(2)[OF a] Cons.prems(2) have "is_file t1 q" by simp
  with b show ?case by (rule Cons.IH)
qed

lemma extract_members_new:
  "extract_members dir ms t = Done t' \<Longrightarrow> is_file t' q \<Longrightarrow>
   is_file t q \<or> (\<exists>m \<in> set ms. snd m \<noteq> None \<and> q = dir @ fst m)"
proof (induction ms arbitrary: t)
  case Nil
  then show ?case by simp
next
  case (Cons m0 ms)
  then obtain t1 where a: "extract_member dir m0 t = Done t1"
    and b: "extract_members dir ms t1 = Done t'" by (auto simp: and_then_Done)
  from Cons.IH[OF b Cons.prems(2)] have
    "is_file t1 q \<or> (\<exists>m \<in> set ms. snd m \<noteq> None \<and> q = dir @ fst m)" .
  with extract_member_Done(3)[OF a, of q] show ?case by auto
qed

lemma extract_members_made:
  "extract_members dir ms t = Done t' \<Longrightarrow> m \<in> set ms \<Longrightarrow> snd m \<noteq> None \<Longrightarrow>
   is_file t' (dir @ fst m)"
proof (induction ms arbitrary: t)
  case Nil
  then show ?case by simp
next
  case (Cons m0 ms)
  then obtain t1 where a: "extract_member dir m0 t = Done t1"
    and b: "extract_members dir ms t1 = Done t'" by (auto simp: and_then_Done)
  show ?case
  proof (cases "m = m0")
    case True
    with extract_member_Done(4)[OF a] Cons.prems(3) have "is_file t1 (dir @ fst m)" by simp
    with b show ?thesis by (rule extract_members_keeps)
  next
    case False
    with Cons.prems(2) have "m \<in> set ms" by simp
    with b show ?thesis using Cons.prems(3) by (rule Cons.IH)
  qed
qed

text \<open>What a file holds after the extraction: what it held before, or what a member
  wrote.\<close>

lemma extract_member_content:
  assumes "extract_member dir m t = Done t'" and "stat t' q = Some (IsFile c)"
  shows "stat t q = Some (IsFile c) \<or> (snd m = Some c \<and> q = dir @ fst m)"
proof -
  let ?target = "dir @ fst m"
  from assms(1) obtain t1 where
    s1: "(if \<not> exists t (butlast ?target) then mkdir (butlast ?target) True True t else Done t)
          = Done t1"
    and s2: "(case snd m of None \<Rightarrow> if is_dir t1 ?target then Done t1 else os_mkdir ?target t1
              | Some d \<Rightarrow> write_file ?target d t1) = Done t'"
    by (auto simp: extract_member_def Let_def and_then_Done)
  have st1: "stat t1 q = stat t q \<or> (stat t q = None \<and> stat t1 q = Some IsDir)"
    using s1 mkdir_Done_stat by (auto split: if_splits)
  show ?thesis
  proof (cases "snd m")
    case None
    show ?thesis
    proof (cases "is_dir t1 ?target")
      case True
      with s2 None have "t' = t1" by simp
      with st1 assms(2) show ?thesis by auto
    next
      case False
      with s2 None have om: "os_mkdir ?target t1 = Done t'" by simp
      from os_mkdir_Done(2)[OF om, of q] assms(2) have "stat t1 q = Some (IsFile c)"
        by (auto split: if_splits)
      with st1 show ?thesis by auto
    qed
  next
    case (Some d)
    with s2 have "write_file ?target d t1 = Done t'" by simp
    from write_file_Done[OF this, of q] assms(2)
    have "(q = ?target \<and> d = c) \<or> stat t1 q = Some (IsFile c)"
      by (auto split: if_splits)
    with st1 Some show ?thesis by auto
  qed
qed

lemma extract_members_content:
  "extract_members dir ms t = Done t' \<Longrightarrow> stat t' q = Some (IsFile c) \<Longrightarrow>
   stat t q = Some (IsFile c) \<or> (\<exists>m \<in> set ms. snd m = Some c \<and> q = dir @ fst m)"
proof (induction ms arbitrary: t)
  case Nil
  then show ?case by simp
next
  case (Cons m0 ms)
  then obtain t1 where a: "extract_member dir m0 t = Done t1"
    and b: "extract_members dir ms t1 = Done t'" by (auto simp: and_then_Done)
  from Cons.IH[OF b Cons.prems(2)] have
    "stat t1 q = Some (IsFile c) \<or> (\<exists>m \<in> set ms. snd m = Some c \<and> q = dir @ fst m)" .
  then show ?case
  proof
    assume "stat t1 q = Some (IsFile c)"
    from extract_member_content[OF a this] show ?thesis by auto
  next
    assume "\<exists>m \<in> set ms. snd m = Some c \<and> q = dir @ fst m"
    then show ?thesis by auto
  qed
qed


subsection \<open>Download, unzip and search\<close>

lemma urlretrieve_events:
  "events (final (urlretrieve E url p w)) = events w @ [Request url]"
  by (auto simp: urlretrieve_def Let_def on_fs_def split: sum.splits outcome.splits)

lemma urlretrieve_Done:
  assumes "urlretrieve E url p w = Done w'"
  shows "\<exists>d. remote E url = Inr d \<and> write_file p d (fs w) = Done (fs w')"
  using assms
  by (auto simp: urlretrieve_def Let_def on_fs_def split: sum.splits outcome.splits)

lemma on_fs_events: "events (final (on_fs f w)) = events w"
  by (auto simp: on_fs_def split: outcome.splits)

lemma extractall_Done:
  assumes "extractall zp dir t = Done t'"
  shows "\<exists>ms. lookup t zp = Some (File (Zip ms)) \<and> extract_members dir ms t = Done t'"
  using assms
  by (auto simp: extractall_def split: option.splits node.splits fdata.splits)

text \<open>The state between extraction and search.\<close>

lemma download_unzip_Done:
  assumes "and_then (download E) (unzip E) w = Done w2"
  shows "events w2 = events w @ [Request zip_url]"
    and "\<exists>ms. remote E zip_url = Inr (Zip ms) \<and>
           (\<forall>q. is_file (fs w2) q \<longrightarrow> is_file (fs w) q \<or> q = zip_path E \<or>
                 (\<exists>m \<in> set ms. snd m \<noteq> None \<and> q = script_dir E @ fst m)) \<and>
           (\<forall>m \<in> set ms. snd m \<noteq> None \<longrightarrow> is_file (fs w2) (script_dir E @ fst m))"
    and "well_formed (fs w) \<Longrightarrow> well_formed (fs w2)"
proof -
  from assms obtain w1 where d: "download E w = Done w1" and u: "unzip E w1 = Done w2"
    by (auto simp: and_then_Done)
  from d have ev1: "events w1 = events w @ [Request zip_url]"
    using urlretrieve_events[of E zip_url "zip_path E" w] by (simp add: download_def)
  from u have ev2: "events w2 = events w1"
    using on_fs_events[of "extractall (zip_path E) (script_dir E)" w1] by (simp add: unzip_def)
  show "events w2 = events w @ [Request zip_url]" using ev1 ev2 by simp
  from d obtain d0 where r: "remote E zip_url = Inr d0"
    and wr: "write_file (zip_path E) d0 (fs w) = Done (fs w1)"
    using urlretrieve_Done[of E zip_url "zip_path E" w w1] by (auto simp: download_def)
  have st1: "\<And>q. stat (fs w1) q = (if q = zip_path E then Some (IsFile d0) else stat (fs w) q)"
    using write_file_Done[OF wr] .
  from u have "extractall (zip_path E) (script_dir E) (fs w1) = Done (fs w2)"
    by (auto simp: unzip_def on_fs_Done)
  from extractall_Done[OF this] obtain ms where
    z: "lookup (fs w1) (zip_path E) = Some (File (Zip ms))"
    and ex: "extract_members (script_dir E) ms (fs w1) = Done (fs w2)" by blast
  from z st1[of "zip_path E"] have "d0 = Zip ms" by (simp add: lookup_File_stat)
  with r have rm: "remote E zip_url = Inr (Zip ms)" by simp
  have a: "is_file (fs w) q \<or> q = zip_path E \<or>
      (\<exists>m \<in> set ms. snd m \<noteq> None \<and> q = script_dir E @ fst m)"
    if "is_file (fs w2) q" for q
  proof -
    from extract_members_new[OF ex that] show ?thesis
      using st1[of q] by (auto simp: is_file_stat split: if_splits)
  qed
  have b: "is_file (fs w2) (script_dir E @ fst m)" if "m \<in> set ms" "snd m \<noteq> None" for m
    using ex that by (rule extract_members_made)
  from rm a b show "\<exists>ms. remote E zip_url = Inr (Zip ms) \<and>
           (\<forall>q. is_file (fs w2) q \<longrightarrow> is_file (fs w) q \<or> q = zip_path E \<or>
                 (\<exists>m \<in> set ms. snd m \<noteq> None \<and> q = script_dir E @ fst m)) \<and>
           (\<forall>m \<in> set ms. snd m \<noteq> None \<longrightarrow> is_file (fs w2) (script_dir E @ fst m))"
    by blast
  show "well_formed (fs w2)" if "well_formed (fs w)"
  proof -
    have "well_formed (fs w1)" using that wr by (rule write_file_well_formed)
    with ex show ?thesis by (rule extract_members_well_formed)
  qed
qed

text \<open>The search.\<close>

lemma search_files_eq:
  "search_files E root files t =
     (if tsv_name \<in> set files \<and> root @ [tsv_name] \<noteq> tsv_file E
      then rename (os_platform E) (root @ [tsv_name]) (tsv_file E) t else Done t)"
  by (induction files) (auto simp: Let_def)


lemma rename_keeps_target:
  assumes "rename pf src dst t = Done t'" and "is_file t dst" and "src \<noteq> []" and "dst \<noteq> []"
  shows "is_file t' dst"
proof (cases "src = dst")
  case True
  with assms(1,2) show ?thesis
    by (auto simp: rename_def split: option.splits node.splits)
next
  case False
  from assms(2) obtain old where old: "lookup t dst = Some (File old)"
    by (auto simp: is_file_def split: option.splits node.splits)
  show ?thesis
  proof (cases "lookup t src")
    case None
    with assms(1) show ?thesis by (simp add: rename_def)
  next
    case (Some n)
    show ?thesis
    proof (cases n)
      case (Dir es)
      with Some old False assms(1) show ?thesis by (simp add: rename_def split: if_splits)
    next
      case (File d)
      with Some have "stat t src = Some (IsFile d)" by (simp add: lookup_File_stat)
      from rename_file_Done[OF assms(1) this False assms(3,4), of dst]
      show ?thesis by (simp add: is_file_stat)
    qed
  qed
qed

lemma rename_makes_target:
  assumes "rename pf src dst t = Done t'" and "is_file t src" and "src \<noteq> dst"
    and "src \<noteq> []" and "dst \<noteq> []"
  shows "is_file t' dst"
proof -
  from assms(2) obtain d where "stat t src = Some (IsFile d)" by (auto simp: is_file_stat)
  from rename_file_Done[OF assms(1) this assms(3,4,5), of dst]
  show ?thesis by (simp add: is_file_stat)
qed

lemma search_files_keeps:
  assumes "search_files E root files t = Done t'" and "is_file t (tsv_file E)"
  shows "is_file t' (tsv_file E)"
proof (cases "tsv_name \<in> set files \<and> root @ [tsv_name] \<noteq> tsv_file E")
  case False
  with assms show ?thesis by (auto simp: search_files_eq)
next
  case True
  with assms(1) have "rename (os_platform E) (root @ [tsv_name]) (tsv_file E) t = Done t'"
    by (simp add: search_files_eq)
  then show ?thesis using assms(2) by (rule rename_keeps_target) (simp_all add: tsv_file_def)
qed

lemma search_walk_keeps:
  "search_walk E xs t = Done t' \<Longrightarrow> is_file t (tsv_file E) \<Longrightarrow> is_file t' (tsv_file E)"
proof (induction xs arbitrary: t)
  case Nil
  then show ?case by simp
next
  case (Cons x xs)
  obtain root dirs files where x: "x = (root, dirs, files)" by (cases x)
  with Cons.prems(1) obtain t1 where a: "search_files E root files t = Done t1"
    and b: "search_walk E xs t1 = Done t'" by (auto simp: and_then_Done)
  from search_files_keeps[OF a Cons.prems(2)] b show ?case by (rule Cons.IH[rotated])
qed

lemma search_walk_finds:
  assumes "search_walk E xs t = Done t'"
    and "(root, dirs, files) \<in> set xs" and "tsv_name \<in> set files"
    and "\<And>r ds fl. (r, ds, fl) \<in> set xs \<Longrightarrow> tsv_name \<in> set fl \<Longrightarrow> is_file t (r @ [tsv_name])"
  shows "is_file t' (tsv_file E)"
  using assms
proof (induction xs arbitrary: t)
  case Nil
  then show ?case by simp
next
  case (Cons x xs)
  obtain r0 d0 f0 where x: "x = (r0, d0, f0)" by (cases x)
  with Cons.prems(1) obtain t1 where a: "search_files E r0 f0 t = Done t1"
    and b: "search_walk E xs t1 = Done t'" by (auto simp: and_then_Done)
  show ?case
  proof (cases "tsv_name \<in> set f0")
    case True
    have src: "is_file t (r0 @ [tsv_name])" using Cons.prems(4)[of r0 d0 f0] True x by simp
    have "is_file t1 (tsv_file E)"
    proof (cases "r0 @ [tsv_name] = tsv_file E")
      case True
      with a src show ?thesis by (simp add: search_files_eq)
    next
      case False
      with a True have "rename (os_platform E) (r0 @ [tsv_name]) (tsv_file E) t = Done t1"
        by (simp add: search_files_eq)
      then show ?thesis using src False by (rule rename_makes_target) (simp_all add: tsv_file_def)
    qed
    with b show ?thesis by (rule search_walk_keeps)
  next
    case False
    with a have t1: "t1 = t" by (simp add: search_files_eq)
    from False Cons.prems(2,3) x have in_rest: "(root, dirs, files) \<in> set xs" by auto
    show ?thesis
    proof (rule Cons.IH[OF _ in_rest Cons.prems(3)])
      show "search_walk E xs t = Done t'" using b t1 by simp
      show "\<And>r ds fl. (r, ds, fl) \<in> set xs \<Longrightarrow> tsv_name \<in> set fl \<Longrightarrow> is_file t (r @ [tsv_name])"
        using Cons.prems(4) by (meson list.set_intros(2))
    qed
  qed
qed



lemma fetch_and_unpack_Done:
  "fetch_and_unpack E w = Done w3 \<longleftrightarrow>
     (\<exists>w2. and_then (download E) (unzip E) w = Done w2 \<and> search E w2 = Done w3)"
  by (auto simp: fetch_and_unpack_def and_then_def split: outcome.splits)

lemma search_Done:
  "search E w2 = Done w3 \<longleftrightarrow>
     search_walk E (os_walk (script_dir E) (fs w2)) (fs w2) = Done (fs w3) \<and>
     w3 = w2\<lparr>fs := fs w3\<rparr>"
  by (auto simp: search_def on_fs_Done)

text \<open>What a file holds between extraction and search.\<close>

lemma download_unzip_content:
  assumes "and_then (download E) (unzip E) w = Done w2"
    and "remote E zip_url = Inr (Zip ms)"
    and "stat (fs w2) q = Some (IsFile c)"
  shows "stat (fs w) q = Some (IsFile c) \<or> q = zip_path E \<or>
     (\<exists>m \<in> set ms. snd m = Some c \<and> q = script_dir E @ fst m)"
proof -
  from assms(1) obtain w1 where d: "download E w = Done w1" and u: "unzip E w1 = Done w2"
    by (auto simp: and_then_Done)
  from d obtain d0 where r: "remote E zip_url = Inr d0"
    and wr: "write_file (zip_path E) d0 (fs w) = Done (fs w1)"
    using urlretrieve_Done[of E zip_url "zip_path E" w w1] by (auto simp: download_def)
  have st1: "\<And>q. stat (fs w1) q = (if q = zip_path E then Some (IsFile d0) else stat (fs w) q)"
    using write_file_Done[OF wr] .
  from u have "extractall (zip_path E) (script_dir E) (fs w1) = Done (fs w2)"
    by (auto simp: unzip_def on_fs_Done)
  from extractall_Done[OF this] obtain ms' where
    z: "lookup (fs w1) (zip_path E) = Some (File (Zip ms'))"
    and ex: "extract_members (script_dir E) ms' (fs w1) = Done (fs w2)" by blast
  from z st1[of "zip_path E"] have "d0 = Zip ms'" by (simp add: lookup_File_stat)
  with r assms(2) have "ms' = ms" by simp
  with ex have ex': "extract_members (script_dir E) ms (fs w1) = Done (fs w2)" by simp
  from extract_members_content[OF ex' assms(3)] st1[of q] show ?thesis
    by (auto split: if_splits)
qed

text \<open>The search when every file of the dataset's name lies in one directory.\<close>

lemma search_walk_at_target:
  assumes "r0 @ [tsv_name] = tsv_file E"
    and "\<forall>x \<in> set xs. tsv_name \<in> set (snd (snd x)) \<longrightarrow> fst x = r0"
  shows "search_walk E xs t = Done t"
  using assms(2)
proof (induction xs)
  case Nil
  then show ?case by simp
next
  case (Cons x xs)
  obtain r ds fl where x: "x = (r, ds, fl)" by (cases x)
  have "search_files E r fl t = Done t"
    using Cons.prems x assms(1) by (auto simp: search_files_eq)
  moreover have "search_walk E xs t = Done t" using Cons by simp
  ultimately show ?case using x by (simp add: and_then_def)
qed

lemma search_walk_source_gone:
  assumes "search_walk E xs t = Done t'"
    and "r0 @ [tsv_name] \<noteq> tsv_file E" and "stat t (r0 @ [tsv_name]) = None"
    and "\<forall>x \<in> set xs. tsv_name \<in> set (snd (snd x)) \<longrightarrow> fst x = r0"
  shows "t' = t"
  using assms(1,4)
proof (induction xs)
  case Nil
  then show ?case by simp
next
  case (Cons x xs)
  obtain r ds fl where x: "x = (r, ds, fl)" by (cases x)
  from Cons.prems(1) x obtain t1 where a: "search_files E r fl t = Done t1"
    and b: "search_walk E xs t1 = Done t'" by (auto simp: and_then_Done)
  have "tsv_name \<notin> set fl"
  proof
    assume m: "tsv_name \<in> set fl"
    with Cons.prems(2) x have "r = r0" by simp
    with a m assms(2) have "rename (os_platform E) (r0 @ [tsv_name]) (tsv_file E) t = Done t1"
      by (simp add: search_files_eq)
    moreover have "lookup t (r0 @ [tsv_name]) = None" using assms(3) by (simp add: lookup_None_stat)
    ultimately show False by (simp add: rename_def)
  qed
  with a have "t1 = t" by (simp add: search_files_eq)
  with b Cons show ?case by simp
qed

lemma search_walk_moves:
  assumes "search_walk E xs t = Done t'"
    and "r0 @ [tsv_name] \<noteq> tsv_file E" and "stat t (r0 @ [tsv_name]) = Some (IsFile d)"
    and "\<forall>x \<in> set xs. tsv_name \<in> set (snd (snd x)) \<longrightarrow> fst x = r0"
    and "\<exists>x \<in> set xs. tsv_name \<in> set (snd (snd x))"
  shows "stat t' q = (if q = tsv_file E then Some (IsFile d)
                      else if q = r0 @ [tsv_name] then None else stat t q)"
  using assms(1,4,5)
proof (induction xs)
  case Nil
  then show ?case by simp
next
  case (Cons x xs)
  obtain r ds fl where x: "x = (r, ds, fl)" by (cases x)
  from Cons.prems(1) x obtain t1 where a: "search_files E r fl t = Done t1"
    and b: "search_walk E xs t1 = Done t'" by (auto simp: and_then_Done)
  have rest: "\<forall>x \<in> set xs. tsv_name \<in> set (snd (snd x)) \<longrightarrow> fst x = r0"
    using Cons.prems(2) by simp
  show ?case
  proof (cases "tsv_name \<in> set fl")
    case False
    with a have "t1 = t" by (simp add: search_files_eq)
    moreover from False Cons.prems(3) x have "\<exists>x \<in> set xs. tsv_name \<in> set (snd (snd x))"
      by auto
    ultimately show ?thesis using Cons.IH[OF _ rest] b by simp
  next
    case True
    with Cons.prems(2) x have "r = r0" by simp
    with a True assms(2) have rn: "rename (os_platform E) (r0 @ [tsv_name]) (tsv_file E) t = Done t1"
      by (simp add: search_files_eq)
    have st1: "\<And>q. stat t1 q = (if q = tsv_file E then Some (IsFile d)
                      else if q = r0 @ [tsv_name] then None else stat t q)"
      using rename_file_Done[OF rn assms(3) assms(2)] by (simp add: tsv_file_def)
    then have "stat t1 (r0 @ [tsv_name]) = None" using assms(2) by simp
    from search_walk_source_gone[OF b assms(2) this rest] have "t' = t1" .
    with st1 show ?thesis by simp
  qed
qed


section \<open>The state after a successful run (C1)\<close>





section \<open>Acquisition when the dataset file is present (C2)\<close>

text \<open>
  C2.  When the dataset file exists at the target path, the acquisition step completes and
  leaves the state exactly as it found it: no request is sent, and the file system, the
  dataset file's content included, is unchanged.  After a successful run the dataset file
  exists, so acquisition run again, whatever the server would answer by then, is such a
  no-op.
\<close>

theorem acquire_present:
  "(exists (fs w) (tsv_file E) \<longrightarrow>
      acquire E w = Done w \<and> events (final (acquire E w)) = events w \<and>
      stat (fs (final (acquire E w))) (tsv_file E) = stat (fs w) (tsv_file E)) \<and>
   (convert E w = Done w' \<and> script_dir E' = script_dir E \<longrightarrow>
      exists (fs w') (tsv_file E') \<and> acquire E' w' = Done w')"
proof (intro conjI impI)
  assume "exists (fs w) (tsv_file E)"
  then show a: "acquire E w = Done w" by (simp add: acquire_def)
  show "events (final (acquire E w)) = events w"
    and "stat (fs (final (acquire E w))) (tsv_file E) = stat (fs w) (tsv_file E)"
    unfolding a by simp_all
next
  assume h: "convert E w = Done w' \<and> script_dir E' = script_dir E"
  then obtain w1 where "parse_and_store E w1 = Done w'"
    by (auto simp: convert_def and_then_Done)
  from parse_and_store_Done(1)[OF this] have "stat (fs w') (tsv_file E) \<noteq> None" by auto
  moreover have "tsv_file E' = tsv_file E" using h by (simp add: tsv_file_def)
  ultimately show e: "exists (fs w') (tsv_file E')" by (simp add: exists_stat)
  then show "acquire E' w' = Done w'" by (simp add: acquire_def)
qed

theorem acquire_present_witness:
  "exists (fs installed_world) (tsv_file demo_env) \<and>
   acquire demo_env installed_world = Done installed_world \<and>
   convert demo_env fresh_world = Done installed_world \<and>
   script_dir two_matches_env = script_dir demo_env \<and>
   acquire two_matches_env installed_world = Done installed_world"
proof -
  have a: "exists (fs installed_world) (tsv_file demo_env)" by code_simp
  have b: "script_dir two_matches_env = script_dir demo_env" by (simp add: two_matches_env_def)
  from acquire_present[where w = installed_world and E = demo_env]
    acquire_present[where w = fresh_world and E = demo_env and w' = installed_world
      and E' = two_matches_env]
    a b convert_fresh
  show ?thesis by blast
qed
section \<open>Replace semantics of the database write (C3)\<close>





section \<open>Several files of the dataset's name (C4)\<close>

text \<open>
  C4.  The claim is that the search stops at the first file of the expected name, so that
  the first match alone decides the retained file.  The script's \<^verbatim>\<open>break\<close> leaves the
  inner loop only.  On an archive with the name in the directories \<open>a\<close> and \<open>b\<close>, walked
  in that order, both matches are moved to the target path: on Unix the second replaces the
  first, and the retained file is the last match; on Windows the second move raises
  \<^verbatim>\<open>FileExistsError\<close> and the run ends.
\<close>

theorem search_moves_every_match:
  "map fst (filter (\<lambda>(root, dirs, files). tsv_name \<in> set files)
     (os_walk (script_dir two_matches_env)
        (fs (final (and_then (download two_matches_env) (unzip two_matches_env) fresh_world))))) =
     [script_dir two_matches_env @ [''a''], script_dir two_matches_env @ [''b'']] \<and>
   completed (fetch_and_unpack two_matches_env fresh_world) \<and>
   stat (fs (final (fetch_and_unpack two_matches_env fresh_world))) (tsv_file two_matches_env) =
     Some (IsFile (Bytes ''second'')) \<and>
   (\<exists>w. convert two_matches_env_windows fresh_world = Raised FileExistsError w)"
proof -
  have "convert two_matches_env_windows fresh_world =
      Raised FileExistsError (final (convert two_matches_env_windows fresh_world))"
    by code_simp
  then have "\<exists>w. convert two_matches_env_windows fresh_world = Raised FileExistsError w" ..
  moreover have "map fst (filter (\<lambda>(root, dirs, files). tsv_name \<in> set files)
     (os_walk (script_dir two_matches_env)
        (fs (final (and_then (download two_matches_env) (unzip two_matches_env) fresh_world))))) =
     [script_dir two_matches_env @ [''a''], script_dir two_matches_env @ [''b'']]"
    by code_simp
  moreover have "completed (fetch_and_unpack two_matches_env fresh_world)" by code_simp
  moreover have "stat (fs (final (fetch_and_unpack two_matches_env fresh_world)))
      (tsv_file two_matches_env) = Some (IsFile (Bytes ''second''))"
    by code_simp
  ultimately show ?thesis by blast
qed

section \<open>An archive without the dataset (C5)\<close>




section \<open>What acquisition leaves behind (C6)\<close>

text \<open>
  C6.  The dataset file is absent, the file system is well formed, and the archive the
  server delivers has a file member of the expected name, at any depth.  When the
  acquisition step completes, the dataset file is a regular file at the target path, the
  archive is gone, and no entry of the script's directory has a name that begins with
  \<open>LICENSE\<close> or \<open>README\<close>.  When that member is the only file member of the archive
  with the expected name, and no file of that name lay under the script's directory before,
  the file at the target path holds what the member holds, and it has been moved: where
  the member was extracted below the script's directory, nothing is left.
\<close>

theorem acquire_result:
  assumes "\<not> exists (fs w) (tsv_file E)" and "well_formed (fs w)"
    and "remote E zip_url = Inr (Zip ms)" and "(rel @ [tsv_name], Some d) \<in> set ms"
    and "acquire E w = Done w'"
  shows "is_file (fs w') (tsv_file E) \<and> stat (fs w') (zip_path E) = None \<and>
    (\<forall>n. startswith n ''LICENSE'' \<or> startswith n ''README'' \<longrightarrow>
         stat (fs w') (script_dir E @ [n]) = None) \<and>
    (list_all (\<lambda>(root, dirs, files). tsv_name \<notin> set files) (os_walk (script_dir E) (fs w)) \<and>
     filter (\<lambda>m. fst m \<noteq> [] \<and> last (fst m) = tsv_name \<and> snd m \<noteq> None) ms =
       [(rel @ [tsv_name], Some d)] \<longrightarrow>
       stat (fs w') (tsv_file E) = Some (IsFile d) \<and>
       (rel \<noteq> [] \<longrightarrow> stat (fs w') (script_dir E @ rel @ [tsv_name]) = None))"
proof -
  from assms(1,5) obtain w3 where f: "fetch_and_unpack E w = Done w3"
    and c: "cleanup E w3 = Done w'"
    by (auto simp: acquire_def and_then_Done)
  from f obtain w2 where du: "and_then (download E) (unzip E) w = Done w2"
    and s: "search E w2 = Done w3"
    unfolding fetch_and_unpack_Done by blast
  from download_unzip_Done(2)[OF du] assms(3) have
    made: "\<forall>m \<in> set ms. snd m \<noteq> None \<longrightarrow> is_file (fs w2) (script_dir E @ fst m)"
    by auto
  have wf2: "well_formed (fs w2)" using download_unzip_Done(3)[OF du assms(2)] .
  from made assms(4) have src: "is_file (fs w2) (script_dir E @ rel @ [tsv_name])" by force
  from os_walk_lists_file[OF this] obtain ds fl where
    listed: "(script_dir E @ rel, ds, fl) \<in> set (os_walk (script_dir E) (fs w2))"
    and n: "tsv_name \<in> set fl" by blast
  have files: "is_file (fs w2) (r @ [tsv_name])"
    if "(r, ds', fl') \<in> set (os_walk (script_dir E) (fs w2))" "tsv_name \<in> set fl'"
    for r ds' fl'
    using os_walk_file_listed[OF that wf2] by auto
  from s have sw: "search_walk E (os_walk (script_dir E) (fs w2)) (fs w2) = Done (fs w3)"
    unfolding search_Done by simp
  have t3: "is_file (fs w3) (tsv_file E)"
    using search_walk_finds[OF sw listed n files] .
  have keep: "\<not> (\<exists>n. (startswith n ''LICENSE'' \<or> startswith n ''README'') \<and>
      tsv_file E = script_dir E @ [n])"
    using names_differ(4,5) by (auto simp: tsv_file_def)
  with cleanup_Done(2)[OF c, of "tsv_file E"] paths_differ(3)[of E E]
  have same: "stat (fs w') (tsv_file E) = stat (fs w3) (tsv_file E)" by simp
  with t3 have a: "is_file (fs w') (tsv_file E)" by (simp add: is_file_stat)
  have b: "stat (fs w') (zip_path E) = None"
    using cleanup_Done(2)[OF c, of "zip_path E"] by simp
  have docs: "stat (fs w') (script_dir E @ [n]) = None"
    if "startswith n ''LICENSE'' \<or> startswith n ''README''" for n
    using cleanup_Done(2)[OF c, of "script_dir E @ [n]"] that by auto
  have content: "stat (fs w') (tsv_file E) = Some (IsFile d) \<and>
       (rel \<noteq> [] \<longrightarrow> stat (fs w') (script_dir E @ rel @ [tsv_name]) = None)"
    if none: "list_all (\<lambda>(root, dirs, files). tsv_name \<notin> set files)
        (os_walk (script_dir E) (fs w))"
      and one: "filter (\<lambda>m. fst m \<noteq> [] \<and> last (fst m) = tsv_name \<and> snd m \<noteq> None) ms =
        [(rel @ [tsv_name], Some d)]"
  proof -
    let ?r0 = "script_dir E @ rel"
    have before: "\<not> is_file (fs w) (script_dir E @ q @ [tsv_name])" for q
    proof
      assume "is_file (fs w) (script_dir E @ q @ [tsv_name])"
      from os_walk_lists_file[OF this] obtain ds fl where
        "(script_dir E @ q, ds, fl) \<in> set (os_walk (script_dir E) (fs w))" "tsv_name \<in> set fl"
        by blast
      with none show False by (auto simp: list_all_iff)
    qed
    have member: "m = (rel @ [tsv_name], Some d)"
      if "m \<in> set ms" "fst m = q @ [tsv_name]" "snd m \<noteq> None" for m q
    proof -
      from that have "m \<in> set (filter (\<lambda>m. fst m \<noteq> [] \<and> last (fst m) = tsv_name \<and> snd m \<noteq> None) ms)"
        by simp
      with one show ?thesis by simp
    qed
    have only: "q = rel \<and> c = d"
      if "stat (fs w2) (script_dir E @ q @ [tsv_name]) = Some (IsFile c)" for q c
    proof -
      from download_unzip_content[OF du assms(3) that]
      consider "stat (fs w) (script_dir E @ q @ [tsv_name]) = Some (IsFile c)"
        | "script_dir E @ q @ [tsv_name] = zip_path E"
        | m where "m \<in> set ms" "snd m = Some c" "script_dir E @ q @ [tsv_name] = script_dir E @ fst m"
        by blast
      then show ?thesis
      proof cases
        case 1
        with before[of q] show ?thesis by (simp add: is_file_stat)
      next
        case 2
        with names_differ(3) show ?thesis by (simp add: zip_path_def)
      next
        case 3
        then have "fst m = q @ [tsv_name]" by simp
        from member[OF 3(1) this] 3(2) have "m = (rel @ [tsv_name], Some d)" by simp
        with 3(2,3) show ?thesis by simp
      qed
    qed
    from src obtain c where "stat (fs w2) (script_dir E @ rel @ [tsv_name]) = Some (IsFile c)"
      by (auto simp: is_file_stat)
    with only[of rel c] have src_d: "stat (fs w2) (?r0 @ [tsv_name]) = Some (IsFile d)" by simp
    have all: "\<forall>x \<in> set (os_walk (script_dir E) (fs w2)).
        tsv_name \<in> set (snd (snd x)) \<longrightarrow> fst x = ?r0"
    proof (intro ballI impI)
      fix x assume x: "x \<in> set (os_walk (script_dir E) (fs w2))" "tsv_name \<in> set (snd (snd x))"
      obtain r ds' fl' where xe: "x = (r, ds', fl')" by (cases x)
      with x os_walk_file_listed[of r ds' fl' "script_dir E" "fs w2" tsv_name] wf2
      obtain q where q: "r = script_dir E @ q" "is_file (fs w2) (script_dir E @ q @ [tsv_name])"
        by auto
      from q(2) obtain c where "stat (fs w2) (script_dir E @ q @ [tsv_name]) = Some (IsFile c)"
        by (auto simp: is_file_stat)
      from only[OF this] q(1) xe show "fst x = ?r0" by simp
    qed
    have some: "\<exists>x \<in> set (os_walk (script_dir E) (fs w2)). tsv_name \<in> set (snd (snd x))"
      using listed n by force
    have st3: "stat (fs w3) (tsv_file E) = Some (IsFile d) \<and>
        (rel \<noteq> [] \<longrightarrow> stat (fs w3) (?r0 @ [tsv_name]) = None)"
    proof (cases "rel = []")
      case True
      then have "?r0 @ [tsv_name] = tsv_file E" by (simp add: tsv_file_def)
      from search_walk_at_target[OF this all, of "fs w2"] sw src_d True
      show ?thesis by (simp add: tsv_file_def)
    next
      case False
      then have ne: "?r0 @ [tsv_name] \<noteq> tsv_file E" by (simp add: tsv_file_def)
      from search_walk_moves[OF sw ne src_d all some, of "tsv_file E"]
        search_walk_moves[OF sw ne src_d all some, of "?r0 @ [tsv_name]"] ne
      show ?thesis by simp
    qed
    have "stat (fs w') (script_dir E @ rel @ [tsv_name]) = None" if "rel \<noteq> []"
      using cleanup_Done(2)[OF c, of "script_dir E @ rel @ [tsv_name]"] st3 that
      by (auto split: if_splits)
    with st3 same show ?thesis by simp
  qed
  from a b docs content show ?thesis by blast
qed

theorem acquire_result_witness:
  "\<not> exists (fs fresh_world) (tsv_file demo_env) \<and> well_formed (fs fresh_world) \<and>
   remote demo_env zip_url =
     Inr (Zip [([''opennutrition-dataset-2025.1'', tsv_name], Some (Bytes fixture)),
               ([''README.txt''], Some (Bytes ''about the data'')),
               ([''LICENSE''], Some (Bytes ''terms''))]) \<and>
   acquire demo_env fresh_world = Done (final (acquire demo_env fresh_world)) \<and>
   is_file (fs (final (acquire demo_env fresh_world))) (tsv_file demo_env) \<and>
   stat (fs (final (acquire demo_env fresh_world))) (zip_path demo_env) = None \<and>
   stat (fs (final (acquire demo_env fresh_world))) (script_dir demo_env @ [''README.txt'']) = None \<and>
   stat (fs (final (acquire demo_env fresh_world))) (script_dir demo_env @ [''LICENSE'']) = None \<and>
   stat (fs (final (acquire demo_env fresh_world))) (tsv_file demo_env) =
     Some (IsFile (Bytes fixture)) \<and>
   stat (fs (final (acquire demo_env fresh_world)))
     (script_dir demo_env @ [''opennutrition-dataset-2025.1'', tsv_name]) = None"
proof -
  let ?ms = "[([''opennutrition-dataset-2025.1'', tsv_name], Some (Bytes fixture)),
              ([''README.txt''], Some (Bytes ''about the data'')),
              ([''LICENSE''], Some (Bytes ''terms''))]"
  have a: "\<not> exists (fs fresh_world) (tsv_file demo_env)" by code_simp
  have b: "well_formed (fs fresh_world)" by code_simp
  have c: "remote demo_env zip_url = Inr (Zip ?ms)"
    by (simp add: demo_env_def demo_archive_def)
  have d: "([''opennutrition-dataset-2025.1''] @ [tsv_name], Some (Bytes fixture)) \<in> set ?ms"
    by simp
  have e: "acquire demo_env fresh_world = Done (final (acquire demo_env fresh_world))"
    by code_simp
  have s: "startswith ''README.txt'' ''LICENSE'' \<or> startswith ''README.txt'' ''README''"
    "startswith ''LICENSE'' ''LICENSE'' \<or> startswith ''LICENSE'' ''README''"
    by (simp_all add: startswith_def)
  have u: "list_all (\<lambda>(root, dirs, files). tsv_name \<notin> set files)
      (os_walk (script_dir demo_env) (fs fresh_world))"
    by code_simp
  have v: "filter (\<lambda>m. fst m \<noteq> [] \<and> last (fst m) = tsv_name \<and> snd m \<noteq> None) ?ms =
      [([''opennutrition-dataset-2025.1''] @ [tsv_name], Some (Bytes fixture))]"
    by code_simp
  have n: "[''opennutrition-dataset-2025.1''] \<noteq> ([] :: string list)" by simp
  note r = acquire_result[OF a b c d e]
  from r have r1: "is_file (fs (final (acquire demo_env fresh_world))) (tsv_file demo_env)"
    and r2: "stat (fs (final (acquire demo_env fresh_world))) (zip_path demo_env) = None"
    by simp_all
  from r s(1) have r3: "stat (fs (final (acquire demo_env fresh_world)))
      (script_dir demo_env @ [''README.txt'']) = None" by blast
  from r s(2) have r4: "stat (fs (final (acquire demo_env fresh_world)))
      (script_dir demo_env @ [''LICENSE'']) = None" by blast
  from r u v n have r5: "stat (fs (final (acquire demo_env fresh_world))) (tsv_file demo_env) =
      Some (IsFile (Bytes fixture))"
    and r6: "stat (fs (final (acquire demo_env fresh_world)))
      (script_dir demo_env @ [''opennutrition-dataset-2025.1''] @ [tsv_name]) = None"
    by blast+
  from r6 have r6': "stat (fs (final (acquire demo_env fresh_world)))
      (script_dir demo_env @ [''opennutrition-dataset-2025.1'', tsv_name]) = None" by simp
  from a b c e r1 r2 r3 r4 r5 r6' show ?thesis by blast
qed


section \<open>What the cleanup removes and what it leaves (C7)\<close>



section \<open>Parse fidelity on the fixture (C8)\<close>

text \<open>
  C8.  The three-row fixture with header name, calories, protein parses to a table of
  exactly 3 rows and 3 columns; the column \<open>calories\<close> has a numeric type, inferred from its
  content; the \<open>name\<close> of the first data row is \<open>Apple\<close>.  The script's own call, on a
  file system whose dataset file holds the fixture, returns that table.
\<close>

theorem read_csv_fixture:
  "\<exists>df. read_csv_plain fixture (CHR 0x09) = Inr df \<and>
     read_csv demo_env (tsv_file demo_env) (CHR 0x09) installed_world = Inr df \<and>
     length (rows df) = 3 \<and> length (columns df) = 3 \<and> list_all (\<lambda>r. length r = 3) (rows df) \<and>
     columns df ! 1 = ''calories'' \<and> is_numeric (dtypes df ! 1) \<and>
     columns df ! 0 = ''name'' \<and> rows df ! 0 ! 0 = StrV ''Apple''"
proof -
  have "read_csv demo_env (tsv_file demo_env) (CHR 0x09) installed_world =
      read_csv_plain fixture (CHR 0x09)"
    by code_simp
  then have "read_csv demo_env (tsv_file demo_env) (CHR 0x09) installed_world = Inr fixture_frame"
    by (simp add: parse_fixture)
  moreover have "length (rows fixture_frame) = 3" "length (columns fixture_frame) = 3"
    "list_all (\<lambda>r. length r = 3) (rows fixture_frame)"
    "columns fixture_frame ! 1 = ''calories''" "is_numeric (dtypes fixture_frame ! 1)"
    "columns fixture_frame ! 0 = ''name''" "rows fixture_frame ! 0 ! 0 = StrV ''Apple''"
    by (simp_all add: fixture_frame_def is_numeric_def)
  ultimately show ?thesis using parse_fixture by blast
qed

section \<open>Creating the application-data directory (C9)\<close>

text \<open>
  C9.  The storage step calls \<^verbatim>\<open>mkdir(parents=True, exist_ok=True)\<close> on the
  application-data directory.  When the directory already exists, the call completes and
  changes nothing.  When no part of its path is a regular file, the call completes, the
  directory and every directory above it exist afterwards (those that were missing have been
  made), and nothing else in the file system has changed.
\<close>

theorem make_app_data_dir_ok:
  "(is_dir (fs w) (app_data_dir E) \<longrightarrow> make_app_data_dir E w = Done w) \<and>
   (list_all (\<lambda>q. \<not> is_file (fs w) q) (prefixes (app_data_dir E)) \<longrightarrow>
      (\<exists>w'. make_app_data_dir E w = Done w' \<and> events w' = events w \<and>
         is_dir (fs w') (app_data_dir E) \<and>
         (\<forall>q. stat (fs w') q =
            (if prefix q (app_data_dir E) then Some IsDir else stat (fs w) q))))"
proof (intro conjI impI)
  assume "is_dir (fs w) (app_data_dir E)"
  then have "mkdir (app_data_dir E) True True (fs w) = Done (fs w)" by (rule mkdir_existing)
  then show "make_app_data_dir E w = Done w" by (simp add: make_app_data_dir_def on_fs_def)
next
  assume "list_all (\<lambda>q. \<not> is_file (fs w) q) (prefixes (app_data_dir E))"
  from mkdir_parents[OF this] obtain t' where
    mk: "mkdir (app_data_dir E) True True (fs w) = Done t'"
    and st: "\<forall>q. stat t' q = (if prefix q (app_data_dir E) then Some IsDir else stat (fs w) q)"
    by blast
  have run: "make_app_data_dir E w = Done (w\<lparr>fs := t'\<rparr>)"
    using mk by (simp add: make_app_data_dir_def on_fs_def)
  have "is_dir t' (app_data_dir E)" using mk by (rule mkdir_Done_is_dir)
  with run st show "\<exists>w'. make_app_data_dir E w = Done w' \<and> events w' = events w \<and>
      is_dir (fs w') (app_data_dir E) \<and>
      (\<forall>q. stat (fs w') q = (if prefix q (app_data_dir E) then Some IsDir else stat (fs w) q))"
    by (intro exI[of _ "w\<lparr>fs := t'\<rparr>"]) simp
qed

theorem make_app_data_dir_ok_witness:
  "is_dir (fs installed_world) (app_data_dir demo_env) \<and>
   make_app_data_dir demo_env installed_world = Done installed_world \<and>
   \<not> exists (fs fresh_world) (app_data_dir demo_env) \<and>
   \<not> exists (fs fresh_world) (butlast (app_data_dir demo_env)) \<and>
   list_all (\<lambda>q. \<not> is_file (fs fresh_world) q) (prefixes (app_data_dir demo_env)) \<and>
   (\<exists>w'. make_app_data_dir demo_env fresh_world = Done w' \<and> events w' = events fresh_world \<and>
      is_dir (fs w') (app_data_dir demo_env) \<and>
      (\<forall>q. stat (fs w') q =
         (if prefix q (app_data_dir demo_env) then Some IsDir else stat (fs fresh_world) q)))"
proof -
  have a: "is_dir (fs installed_world) (app_data_dir demo_env)" by code_simp
  have b: "list_all (\<lambda>q. \<not> is_file (fs fresh_world) q) (prefixes (app_data_dir demo_env))"
    by code_simp
  have c: "\<not> exists (fs fresh_world) (app_data_dir demo_env)"
    "\<not> exists (fs fresh_world) (butlast (app_data_dir demo_env))"
    by code_simp+
  from a b c make_app_data_dir_ok[of installed_world demo_env]
    make_app_data_dir_ok[of fresh_world demo_env]
  show ?thesis by blast
qed

section \<open>A read-me or licence that is a directory (C10)\<close>

text \<open>
  C10.  When an entry of the script's directory whose name begins with \<open>LICENSE\<close> or
  \<open>README\<close> is a directory, the cleanup step raises: \<^verbatim>\<open>unlink\<close> does not remove a
  directory.  A run that reaches the cleanup in such a state ends there with that
  exception, in the state the cleanup left: it neither parses nor writes the database.
\<close>

theorem cleanup_refuses_directory:
  assumes "is_dir (fs w) (script_dir E @ [n])"
    and "startswith n ''LICENSE'' \<or> startswith n ''README''"
  shows "\<exists>e w'. cleanup E w = Raised e w' \<and> events w' = events w \<and>
    (\<forall>w0. \<not> exists (fs w0) (tsv_file E) \<and> fetch_and_unpack E w0 = Done w \<longrightarrow>
       convert E w0 = Raised e w')"
proof -
  from cleanup_dir[OF assms] obtain e w' where
    c: "cleanup E w = Raised e w'" and ev: "events w' = events w" by blast
  have "convert E w0 = Raised e w'"
    if "\<not> exists (fs w0) (tsv_file E) \<and> fetch_and_unpack E w0 = Done w" for w0
    using that c by (simp add: convert_def acquire_def and_then_def)
  with c ev show ?thesis by blast
qed

theorem cleanup_refuses_directory_witness:
  "is_dir (fs (final (fetch_and_unpack readme_dir_env fresh_world)))
     (script_dir readme_dir_env @ [''README'']) \<and>
   startswith ''README'' ''README'' \<and>
   \<not> exists (fs fresh_world) (tsv_file readme_dir_env) \<and>
   fetch_and_unpack readme_dir_env fresh_world =
     Done (final (fetch_and_unpack readme_dir_env fresh_world)) \<and>
   (\<exists>e w'. cleanup readme_dir_env (final (fetch_and_unpack readme_dir_env fresh_world)) =
        Raised e w' \<and>
      events w' = events (final (fetch_and_unpack readme_dir_env fresh_world)) \<and>
      convert readme_dir_env fresh_world = Raised e w')"
proof -
  let ?w = "final (fetch_and_unpack readme_dir_env fresh_world)"
  have a: "is_dir (fs ?w) (script_dir readme_dir_env @ [''README''])" by code_simp
  have b: "startswith ''README'' ''LICENSE'' \<or> startswith ''README'' ''README''" by code_simp
  have c: "\<not> exists (fs fresh_world) (tsv_file readme_dir_env)" by code_simp
  have d: "fetch_and_unpack readme_dir_env fresh_world = Done ?w" by code_simp
  have e: "startswith ''README'' ''README''" by code_simp
  from cleanup_refuses_directory[OF a b] c d e a show ?thesis by blast
qed

end
